theory Spec2Isabelle
  imports Main "HOL-Library.Sublist"
begin

section \<open>Values\<close>

text \<open>
  Python values are objects: each has an identity (what \<^verbatim>\<open>is\<close> compares) and a content
  (what \<^verbatim>\<open>==\<close> and \<^verbatim>\<open>!=\<close> compare). \<open>PNaN\<close> stands for a value whose equality is not
  reflexive (\<^verbatim>\<open>float("nan")\<close>); \<open>PObject\<close> is a bare \<^verbatim>\<open>object()\<close>, equal only to itself.
\<close>

type_synonym nid = nat

datatype payload = PNone | PInt int | PStr string | PNaN | PObject

datatype val = Obj (oid: nat) (payload: payload)

definition py_is :: "val \<Rightarrow> val \<Rightarrow> bool" where
  "py_is a b = (oid a = oid b)"

definition py_eq :: "val \<Rightarrow> val \<Rightarrow> bool" where
  "py_eq a b =
     (if payload a = PObject \<or> payload b = PObject then oid a = oid b \<and> payload a = payload b
      else payload a = payload b \<and> payload a \<noteq> PNaN)"

definition py_ne :: "val \<Rightarrow> val \<Rightarrow> bool" where
  "py_ne a b = (\<not> py_eq a b)"

definition py_None :: val where
  "py_None = Obj 0 PNone"

text \<open>\<^verbatim>\<open>_UNSET = object()\<close> of computed.py.\<close>

definition UNSET :: val where
  "UNSET = Obj 1 PObject"

section \<open>Client code\<close>

text \<open>
  The functions wrapped by derivations, and the scripts that drive the library, are
  arbitrary Python code. All the engine sees of them is the sequence of calls they make
  into the public interface, each continuing with the value the call returned; \<open>Append\<close> is
  a side effect outside the engine (appending to a list owned by the caller, as the tests do).
\<close>

datatype prog =
    Return val
  | Raise
  | New_Observable val "nid \<Rightarrow> prog"
  | Obs_get nid "val \<Rightarrow> prog"
  | Obs_set nid val prog
  | New_Computed prog "nid \<Rightarrow> prog"
  | Comp_get nid "val \<Rightarrow> prog"
  | Autorun prog "nid \<Rightarrow> prog"
  | New_reaction prog "val \<Rightarrow> prog" bool "nid \<Rightarrow> prog"
  | Dispose nid prog
  | Begin_batch prog
  | End_batch prog
  | Transaction prog prog
  | Get_pending_count "nat \<Rightarrow> prog"
  | Append "val list" prog

section \<open>The data anchor and the tracking globals\<close>

datatype kind = KObservable | KComputed | KReaction | KDataReaction

text \<open>
  The trace is a ghost field: the source has no such list. It records every call of a
  wrapped function, every call of an effect function, every dependency registration and
  every disposal (for a Computed, with the observers it had), so that "how often did the
  function run" and "what did it read" can be stated for arbitrary wrapped functions.
\<close>

datatype event =
    CallFn nid
  | CallEffect nid val
  | Read nid nid
  | DisposedComputed nid "nid list"
  | DisposedReaction nid

record state =
  "values" :: "nid \<Rightarrow> val"
  observers :: "nid \<Rightarrow> nid list"
  dependencies :: "nid \<Rightarrow> nid list"
  dirty_flags :: "nid \<Rightarrow> bool"
  cached_values :: "nid \<Rightarrow> val"
  derivation_fns :: "nid \<Rightarrow> prog"
  disposed :: "nid \<Rightarrow> bool"
  id_counter :: nat
  kind :: "nid \<Rightarrow> kind option"
  effect_fn :: "nid \<Rightarrow> val \<Rightarrow> prog"
  last_value :: "nid \<Rightarrow> val"
  initialized :: "nid \<Rightarrow> bool"
  current_derivation :: "nid option"
  batch_depth :: int
  pending :: "nid list"
  log :: "val list list"
  trace :: "event list"

definition init_state :: state where
  "init_state =
     \<lparr> values = (\<lambda>_. py_None), observers = (\<lambda>_. []), dependencies = (\<lambda>_. []),
       dirty_flags = (\<lambda>_. False), cached_values = (\<lambda>_. UNSET),
       derivation_fns = (\<lambda>_. Return py_None), disposed = (\<lambda>_. False), id_counter = 1,
       kind = (\<lambda>_. None), effect_fn = (\<lambda>_ _. Return py_None), last_value = (\<lambda>_. py_None),
       initialized = (\<lambda>_. False), current_derivation = None, batch_depth = 0,
       pending = [], log = [], trace = [] \<rparr>"

text \<open>
  Python sets of handles are kept as duplicate-free lists; \<^verbatim>\<open>list(s)\<close> is the list itself.
  (Python leaves the iteration order of a set open; the model iterates in insertion order.)
\<close>

definition set_add :: "'a \<Rightarrow> 'a list \<Rightarrow> 'a list" where
  "set_add x xs = (if x \<in> set xs then xs else xs @ [x])"

definition discard :: "'a \<Rightarrow> 'a list \<Rightarrow> 'a list" where
  "discard x xs = removeAll x xs"

subsection \<open>_anchor.new_id and the constructors\<close>

definition new_id :: "state \<Rightarrow> nid \<times> state" where
  "new_id s = (id_counter s, s\<lparr>id_counter := Suc (id_counter s)\<rparr>)"

definition Observable_init :: "val \<Rightarrow> state \<Rightarrow> nid \<times> state" where
  "Observable_init v s =
     (case new_id s of (i, s1) \<Rightarrow>
        (i, s1\<lparr>values := (values s1)(i := v),
               observers := (observers s1)(i := []),
               kind := (kind s1)(i := Some KObservable)\<rparr>))"

definition Computed_init :: "prog \<Rightarrow> state \<Rightarrow> nid \<times> state" where
  "Computed_init fn s =
     (case new_id s of (i, s1) \<Rightarrow>
        (i, s1\<lparr>derivation_fns := (derivation_fns s1)(i := fn),
               cached_values := (cached_values s1)(i := UNSET),
               dirty_flags := (dirty_flags s1)(i := True),
               dependencies := (dependencies s1)(i := []),
               observers := (observers s1)(i := []),
               kind := (kind s1)(i := Some KComputed)\<rparr>))"

definition Reaction_init :: "prog \<Rightarrow> state \<Rightarrow> nid \<times> state" where
  "Reaction_init fn s =
     (case new_id s of (i, s1) \<Rightarrow>
        (i, s1\<lparr>derivation_fns := (derivation_fns s1)(i := fn),
               dependencies := (dependencies s1)(i := []),
               disposed := (disposed s1)(i := False),
               kind := (kind s1)(i := Some KReaction)\<rparr>))"

definition DataReaction_init :: "prog \<Rightarrow> (val \<Rightarrow> prog) \<Rightarrow> state \<Rightarrow> nid \<times> state" where
  "DataReaction_init data_fn eff s =
     (case new_id s of (i, s1) \<Rightarrow>
        (i, s1\<lparr>derivation_fns := (derivation_fns s1)(i := data_fn),
               dependencies := (dependencies s1)(i := []),
               disposed := (disposed s1)(i := False),
               effect_fn := (effect_fn s1)(i := eff),
               last_value := (last_value s1)(i := py_None),
               initialized := (initialized s1)(i := False),
               kind := (kind s1)(i := Some KDataReaction)\<rparr>))"

subsection \<open>Dependency registration and cleanup\<close>

text \<open>
  The first lines of \<^verbatim>\<open>Observable.get\<close> and \<^verbatim>\<open>Computed.get\<close>: when a derivation is current,
  add it to the node's observers and the node to its dependencies.
\<close>

definition track :: "nid \<Rightarrow> state \<Rightarrow> state" where
  "track c s =
     (case current_derivation s of
        None \<Rightarrow> s
      | Some d \<Rightarrow>
          s\<lparr>observers := (observers s)(c := set_add d (observers s c)),
            dependencies := (dependencies s)(d := set_add c (dependencies s d)),
            trace := trace s @ [Read d c]\<rparr>)"

text \<open>\<^verbatim>\<open>dep._remove_observer(self)\<close>.\<close>

definition remove_observer :: "nid \<Rightarrow> nid \<Rightarrow> state \<Rightarrow> state" where
  "remove_observer dep d s = s\<lparr>observers := (observers s)(dep := discard d (observers s dep))\<rparr>"

text \<open>
  \<^verbatim>\<open>for dep in dependencies[id]: dep._remove_observer(self)\<close> followed by
  \<^verbatim>\<open>dependencies[id].clear()\<close>, as it opens \<^verbatim>\<open>_recompute\<close>, both \<^verbatim>\<open>_run\<close>s and each \<^verbatim>\<open>dispose\<close>.
\<close>

definition clear_dependencies :: "nid \<Rightarrow> state \<Rightarrow> state" where
  "clear_dependencies d s =
     (let s1 = fold (\<lambda>dep. remove_observer dep d) (dependencies s d) s
      in s1\<lparr>dependencies := (dependencies s1)(d := [])\<rparr>)"

definition Computed_dispose :: "nid \<Rightarrow> state \<Rightarrow> state" where
  "Computed_dispose c s =
     (let s1 = clear_dependencies c s
      in s1\<lparr>observers := (observers s1)(c := []),
            dirty_flags := (dirty_flags s1)(c := True),
            cached_values := (cached_values s1)(c := UNSET),
            trace := trace s1 @ [DisposedComputed c (observers s1 c)]\<rparr>)"

definition Reaction_dispose :: "nid \<Rightarrow> state \<Rightarrow> state" where
  "Reaction_dispose d s =
     clear_dependencies d (s\<lparr>disposed := (disposed s)(d := True),
                             trace := trace s @ [DisposedReaction d]\<rparr>)"

definition begin_batch :: "state \<Rightarrow> state" where
  "begin_batch s = s\<lparr>batch_depth := batch_depth s + 1\<rparr>"

definition get_pending_count :: "state \<Rightarrow> nat" where
  "get_pending_count s = length (pending s)"

subsection \<open>The assignments of the engine\<close>

text \<open>\<^verbatim>\<open>_anchor.values[self._id] = value\<close> in \<^verbatim>\<open>_set_direct\<close>.\<close>

definition set_value :: "nid \<Rightarrow> val \<Rightarrow> state \<Rightarrow> state" where
  "set_value c v s = s\<lparr>values := (values s)(c := v)\<rparr>"

text \<open>\<^verbatim>\<open>_pending.add(derivation)\<close> and \<^verbatim>\<open>_pending.clear()\<close>.\<close>

definition pending_add :: "nid \<Rightarrow> state \<Rightarrow> state" where
  "pending_add d s = s\<lparr>pending := set_add d (pending s)\<rparr>"

definition pending_clear :: "state \<Rightarrow> state" where
  "pending_clear s = s\<lparr>pending := []\<rparr>"

text \<open>\<^verbatim>\<open>_batch_depth -= 1\<close>.\<close>

definition leave_batch :: "state \<Rightarrow> state" where
  "leave_batch s = s\<lparr>batch_depth := batch_depth s - 1\<rparr>"

text \<open>\<^verbatim>\<open>_anchor.dirty_flags[self._id] = True\<close> in \<^verbatim>\<open>Computed._run\<close>.\<close>

definition mark_dirty :: "nid \<Rightarrow> state \<Rightarrow> state" where
  "mark_dirty c s = s\<lparr>dirty_flags := (dirty_flags s)(c := True)\<rparr>"

text \<open>
  \<^verbatim>\<open>token = current_derivation.set(self)\<close>, at which point the wrapped function is called
  (the ghost event), and \<^verbatim>\<open>current_derivation.reset(token)\<close>.
\<close>

definition enter :: "nid \<Rightarrow> state \<Rightarrow> state" where
  "enter d s = s\<lparr>current_derivation := Some d, trace := trace s @ [CallFn d]\<rparr>"

definition reset :: "nid option \<Rightarrow> state \<Rightarrow> state" where
  "reset token s = s\<lparr>current_derivation := token\<rparr>"

text \<open>The end of \<^verbatim>\<open>Computed._recompute\<close>: store the result, clear the dirty flag.\<close>

definition store_cached :: "nid \<Rightarrow> val \<Rightarrow> state \<Rightarrow> state" where
  "store_cached c v s =
     s\<lparr>cached_values := (cached_values s)(c := v), dirty_flags := (dirty_flags s)(c := False)\<rparr>"

text \<open>\<^verbatim>\<open>self._last_value = new_value; self._initialized = True\<close>.\<close>

definition store_last :: "nid \<Rightarrow> val \<Rightarrow> state \<Rightarrow> state" where
  "store_last d v s =
     s\<lparr>last_value := (last_value s)(d := v), initialized := (initialized s)(d := True)\<rparr>"

text \<open>Ghost: the effect function is about to be called with \<open>v\<close>.\<close>

definition note_effect :: "nid \<Rightarrow> val \<Rightarrow> state \<Rightarrow> state" where
  "note_effect d v s = s\<lparr>trace := trace s @ [CallEffect d v]\<rparr>"

text \<open>\<^verbatim>\<open>log.append(...)\<close> in client code.\<close>

definition append_log :: "val list \<Rightarrow> state \<Rightarrow> state" where
  "append_log vs s = s\<lparr>log := log s @ [vs]\<rparr>"

section \<open>The engine\<close>

text \<open>
  Writes, triggers, flushes and wrapped functions call each other, and nothing bounds the
  recursion (a reaction may write the cell it reads), so the engine is one function over
  the calls of the source, with fuel: \<open>step rec\<close> is one call of the source, with \<open>rec\<close>
  for the calls it makes in turn; every call costs one unit of fuel, and running out is the
  result \<open>OutOfFuel\<close>. An exception leaves the state as it was when it was raised, so the
  state is returned beside the error.

  A handle in Python always belongs to a node of its class. Client code here names nodes
  by their ids, so a call on an id that is no node of the class is an error.
\<close>

datatype error = UserError | KeyError | AttributeError | OutOfFuel

datatype call =
    Body prog
  | Observable_set nid val
  | Notify "nid list"
  | Schedule nid
  | Run nid
  | Computed_get nid
  | Computed_recompute nid
  | Flush_pending
  | Flush_batch "nid list"
  | End_batch_call

type_synonym result = "(error + val) \<times> state"

fun step :: "(call \<Rightarrow> state \<Rightarrow> result) \<Rightarrow> call \<Rightarrow> state \<Rightarrow> result" where
\<comment> \<open>Observable.set on the owning thread (no scheduler installed): _set_direct, then _notify\<close>
  "step rec (Observable_set c v) s =
     (if \<not> py_is (values s c) v \<and> py_ne (values s c) v
      then rec (Notify (observers s c)) (set_value c v s)
      else (Inr py_None, s))"

\<comment> \<open>for observer in list(observers): schedule(observer)\<close>
| "step rec (Notify []) s = (Inr py_None, s)"
| "step rec (Notify (d # ds)) s =
     (case rec (Schedule d) s of
        (Inl e, s1) \<Rightarrow> (Inl e, s1)
      | (Inr _, s1) \<Rightarrow> rec (Notify ds) s1)"

\<comment> \<open>_tracking.schedule\<close>
| "step rec (Schedule d) s =
     (if batch_depth s > 0 then (Inr py_None, pending_add d s)
      else rec (Run d) s)"

\<comment> \<open>derivation._run(), by the class of the handle\<close>
| "step rec (Run d) s =
     (case kind s d of
        Some KComputed \<Rightarrow>
          (if \<not> dirty_flags s d
           then rec (Notify (observers s d)) (mark_dirty d s)
           else (Inr py_None, s))
      | Some KReaction \<Rightarrow>
          (if disposed s d then (Inr py_None, s)
           else
             (case rec (Body (derivation_fns s d)) (enter d (clear_dependencies d s)) of
                (Inl e, s1) \<Rightarrow> (Inl e, reset (current_derivation s) s1)
              | (Inr _, s1) \<Rightarrow> (Inr py_None, reset (current_derivation s) s1)))
      | Some KDataReaction \<Rightarrow>
          (if disposed s d then (Inr py_None, s)
           else
             (case rec (Body (derivation_fns s d)) (enter d (clear_dependencies d s)) of
                (Inl e, s1) \<Rightarrow> (Inl e, reset (current_derivation s) s1)
              | (Inr new_value, s1) \<Rightarrow>
                  (let s2 = reset (current_derivation s) s1 in
                   if \<not> initialized s2 d \<or> py_ne new_value (last_value s2 d)
                   then
                     (case rec (Body (effect_fn s2 d new_value))
                             (note_effect d new_value (store_last d new_value s2)) of
                        (Inl e, s3) \<Rightarrow> (Inl e, s3)
                      | (Inr _, s3) \<Rightarrow> (Inr py_None, s3))
                   else (Inr py_None, s2))))
      | _ \<Rightarrow> (Inl AttributeError, s))"

\<comment> \<open>Computed.get\<close>
| "step rec (Computed_get c) s =
     (let s1 = track c s in
      if dirty_flags s1 c
      then (case rec (Computed_recompute c) s1 of
              (Inl e, s2) \<Rightarrow> (Inl e, s2)
            | (Inr _, s2) \<Rightarrow> (Inr (cached_values s2 c), s2))
      else (Inr (cached_values s1 c), s1))"

\<comment> \<open>Computed._recompute\<close>
| "step rec (Computed_recompute c) s =
     (case rec (Body (derivation_fns s c)) (enter c (clear_dependencies c s)) of
        (Inl e, s1) \<Rightarrow> (Inl e, reset (current_derivation s) s1)
      | (Inr v, s1) \<Rightarrow> (Inr py_None, store_cached c v (reset (current_derivation s) s1)))"

\<comment> \<open>_tracking._flush_pending: while _pending: snapshot, clear, run each\<close>
| "step rec Flush_pending s =
     (if pending s \<noteq> []
      then (case rec (Flush_batch (pending s)) (pending_clear s) of
              (Inl e, s1) \<Rightarrow> (Inl e, s1)
            | (Inr _, s1) \<Rightarrow> rec Flush_pending s1)
      else (Inr py_None, s))"
| "step rec (Flush_batch []) s = (Inr py_None, s)"
| "step rec (Flush_batch (d # ds)) s =
     (case rec (Run d) s of
        (Inl e, s1) \<Rightarrow> (Inl e, s1)
      | (Inr _, s1) \<Rightarrow> rec (Flush_batch ds) s1)"

\<comment> \<open>_tracking.end_batch\<close>
| "step rec End_batch_call s =
     (if batch_depth (leave_batch s) = 0 then rec Flush_pending (leave_batch s)
      else (Inr py_None, leave_batch s))"

\<comment> \<open>client code, one call into the library at a time\<close>
| "step rec (Body (Return v)) s = (Inr v, s)"
| "step rec (Body Raise) s = (Inl UserError, s)"
| "step rec (Body (New_Observable v k)) s =
     rec (Body (k (fst (Observable_init v s)))) (snd (Observable_init v s))"
| "step rec (Body (Obs_get c k)) s =
     (if kind s c = Some KObservable
      then rec (Body (k (values s c))) (track c s)
      else (Inl KeyError, s))"
| "step rec (Body (Obs_set c v k)) s =
     (if kind s c = Some KObservable
      then (case rec (Observable_set c v) s of
              (Inl e, s1) \<Rightarrow> (Inl e, s1)
            | (Inr _, s1) \<Rightarrow> rec (Body k) s1)
      else (Inl KeyError, s))"
| "step rec (Body (New_Computed fn k)) s =
     rec (Body (k (fst (Computed_init fn s)))) (snd (Computed_init fn s))"
| "step rec (Body (Comp_get c k)) s =
     (if kind s c = Some KComputed
      then (case rec (Computed_get c) s of
              (Inl e, s1) \<Rightarrow> (Inl e, s1)
            | (Inr v, s1) \<Rightarrow> rec (Body (k v)) s1)
      else (Inl KeyError, s))"
\<comment> \<open>autorun: r = Reaction(fn); r._run(); return r\<close>
| "step rec (Body (Autorun fn k)) s =
     (case rec (Run (fst (Reaction_init fn s))) (snd (Reaction_init fn s)) of
        (Inl e, s1) \<Rightarrow> (Inl e, s1)
      | (Inr _, s1) \<Rightarrow> rec (Body (k (fst (Reaction_init fn s)))) s1)"
\<comment> \<open>reaction(data_fn, effect_fn, fire_immediately)\<close>
| "step rec (Body (New_reaction data_fn eff fire_immediately k)) s =
     (let r = fst (DataReaction_init data_fn eff s);
          s0 = snd (DataReaction_init data_fn eff s)
      in if fire_immediately
         then (case rec (Run r) s0 of
                 (Inl e, s1) \<Rightarrow> (Inl e, s1)
               | (Inr _, s1) \<Rightarrow> rec (Body (k r)) s1)
         else (case rec (Body data_fn) (enter r s0) of
                 (Inl e, s1) \<Rightarrow> (Inl e, reset (current_derivation s0) s1)
               | (Inr v, s1) \<Rightarrow>
                   rec (Body (k r)) (reset (current_derivation s0) (store_last r v s1))))"
| "step rec (Body (Dispose d k)) s =
     (case kind s d of
        Some KComputed \<Rightarrow> rec (Body k) (Computed_dispose d s)
      | Some KReaction \<Rightarrow> rec (Body k) (Reaction_dispose d s)
      | Some KDataReaction \<Rightarrow> rec (Body k) (Reaction_dispose d s)
      | _ \<Rightarrow> (Inl AttributeError, s))"
| "step rec (Body (Begin_batch k)) s = rec (Body k) (begin_batch s)"
| "step rec (Body (End_batch k)) s =
     (case rec End_batch_call s of
        (Inl e, s1) \<Rightarrow> (Inl e, s1)
      | (Inr _, s1) \<Rightarrow> rec (Body k) s1)"
\<comment> \<open>with transaction(): body  --  begin_batch(); try: body; finally: end_batch()\<close>
| "step rec (Body (Transaction body k)) s =
     (case rec (Body body) (begin_batch s) of
        (Inl OutOfFuel, s1) \<Rightarrow> (Inl OutOfFuel, s1)
      | (Inl e, s1) \<Rightarrow>
          (case rec End_batch_call s1 of
             (Inl e', s2) \<Rightarrow> (Inl e', s2)
           | (Inr _, s2) \<Rightarrow> (Inl e, s2))
      | (Inr _, s1) \<Rightarrow>
          (case rec End_batch_call s1 of
             (Inl e', s2) \<Rightarrow> (Inl e', s2)
           | (Inr _, s2) \<Rightarrow> rec (Body k) s2))"
| "step rec (Body (Get_pending_count k)) s = rec (Body (k (get_pending_count s))) s"
| "step rec (Body (Append vs k)) s = rec (Body k) (append_log vs s)"

text \<open>The engine with \<open>n\<close> units of fuel.\<close>

primrec exec :: "nat \<Rightarrow> call \<Rightarrow> state \<Rightarrow> result" where
  "exec 0 = (\<lambda>c s. (Inl OutOfFuel, s))"
| "exec (Suc n) = step (exec n)"

text \<open>A script run from a fresh interpreter.\<close>

definition run_script :: "nat \<Rightarrow> prog \<Rightarrow> result" where
  "run_script n p = exec n (Body p) init_state"

section \<open>Auxiliary notions for the proofs\<close>

text \<open>
  \<^verbatim>\<open>Computed.get\<close> and \<^verbatim>\<open>Computed._recompute\<close> are methods of a Computed handle: they are
  only ever called on the id of a node.
\<close>

fun call_ok :: "call \<Rightarrow> state \<Rightarrow> bool" where
  "call_ok (Computed_get c) s = (kind s c \<noteq> None)"
| "call_ok (Computed_recompute c) s = (kind s c \<noteq> None)"
| "call_ok _ s = True"

section \<open>Example graphs\<close>

text \<open>The autorun of the tests: \<^verbatim>\<open>autorun(lambda: log.append(o.get()))\<close>.\<close>

definition ex_logger :: "nid \<Rightarrow> prog" where
  "ex_logger c = Obs_get c (\<lambda>x. Append [x] (Return py_None))"

text \<open>\<^verbatim>\<open>o = Observable(v); autorun(lambda: log.append(o.get()))\<close>: cell 1, reaction 2.\<close>

definition ex_cell_with_autorun :: "val \<Rightarrow> state" where
  "ex_cell_with_autorun v =
     snd (run_script 10 (New_Observable v (\<lambda>c. Autorun (ex_logger c) (\<lambda>r. Return py_None))))"

text \<open>
  A Computed with an observer, then disposed:
  \<^verbatim>\<open>a = Observable(5); c = Computed(lambda: a.get()); autorun(lambda: log.append(c.get())); c.dispose()\<close>.
  Cell 1, computed 2, reaction 3.
\<close>

definition ex_dispose_computed :: prog where
  "ex_dispose_computed =
     New_Observable (Obj 5 (PInt 5)) (\<lambda>a.
       New_Computed (Obs_get a (\<lambda>x. Return x)) (\<lambda>c.
         Autorun (Comp_get c (\<lambda>x. Append [x] (Return py_None))) (\<lambda>r.
           Dispose c (Return py_None))))"

text \<open>
  The same graph, with the reaction disposed instead:
  \<^verbatim>\<open>... r = autorun(lambda: log.append(c.get())); r.dispose()\<close>.
\<close>

definition ex_dispose_reaction :: prog where
  "ex_dispose_reaction =
     New_Observable (Obj 5 (PInt 5)) (\<lambda>a.
       New_Computed (Obs_get a (\<lambda>x. Return x)) (\<lambda>c.
         Autorun (Comp_get c (\<lambda>x. Append [x] (Return py_None))) (\<lambda>r.
           Dispose r (Return py_None))))"

text \<open>
  Dynamic dependencies: \<^verbatim>\<open>flag = Observable(1); a = Observable(10); b = Observable(20);
  autorun(lambda: log.append(a.get() if flag.get() == 1 else b.get()))\<close>, and then, inside
  an open batch, \<^verbatim>\<open>flag.set(0)\<close>. Cells 1, 2, 3, reaction 4.
\<close>

definition ex_switch_fn :: "nid \<Rightarrow> nid \<Rightarrow> nid \<Rightarrow> prog" where
  "ex_switch_fn flag a b =
     Obs_get flag (\<lambda>f.
       if py_eq f (Obj 11 (PInt 1)) then Obs_get a (\<lambda>x. Append [x] (Return py_None))
       else Obs_get b (\<lambda>x. Append [x] (Return py_None)))"

definition ex_switch :: state where
  "ex_switch =
     snd (run_script 20
       (New_Observable (Obj 11 (PInt 1)) (\<lambda>flag.
        New_Observable (Obj 12 (PInt 10)) (\<lambda>a.
        New_Observable (Obj 13 (PInt 20)) (\<lambda>b.
          Autorun (ex_switch_fn flag a b) (\<lambda>r.
            Begin_batch (Obs_set flag (Obj 14 (PInt 0)) (Return py_None))))))))"


text \<open>
  The fixture of \<^verbatim>\<open>test_caches_until_dirty\<close>: \<^verbatim>\<open>o = Observable(5); c = Computed(lambda: o.get())\<close>.
  Cell 1, computed 2.
\<close>

definition ex_computed :: state where
  "ex_computed =
     snd (run_script 20
       (New_Observable (Obj 15 (PInt 5)) (\<lambda>cell.
        New_Computed (Obs_get cell (\<lambda>x. Return x)) (\<lambda>c. Return py_None))))"



text \<open>
  A reaction that disposes itself in the middle of an evaluation:
  \<^verbatim>\<open>a = Observable(0); p = Observable(7)\<close>,
  \<^verbatim>\<open>def fn(): (r.dispose() if a.get() != 0 else None); p.get()\<close>,
  \<^verbatim>\<open>r = autorun(fn); a.set(1)\<close>. Cells 1 and 2, reaction 3.
\<close>

definition ex_self_dispose :: prog where
  "ex_self_dispose =
     New_Observable (Obj 40 (PInt 0)) (\<lambda>a.
     New_Observable (Obj 47 (PInt 7)) (\<lambda>p.
       Autorun (Obs_get a (\<lambda>x.
                  if py_ne x (Obj 40 (PInt 0))
                  then Dispose 3 (Obs_get p (\<lambda>y. Return py_None))
                  else Obs_get p (\<lambda>y. Return py_None)))
         (\<lambda>r. Obs_set a (Obj 41 (PInt 1)) (Return py_None))))"

text \<open>
  A reaction that writes a cell it has read, and so triggers itself while it is running:
  \<^verbatim>\<open>flag = Observable(1); a = Observable(10); b = Observable(20)\<close>,
  \<^verbatim>\<open>def fn(): if flag.get() == 1: a.get(); flag.set(0)  else: b.get()\<close>,
  \<^verbatim>\<open>autorun(fn)\<close>. Cells 1, 2, 3, reaction 4.
\<close>

definition ex_reentrant :: prog where
  "ex_reentrant =
     New_Observable (Obj 11 (PInt 1)) (\<lambda>flag.
     New_Observable (Obj 12 (PInt 10)) (\<lambda>a.
     New_Observable (Obj 13 (PInt 20)) (\<lambda>b.
       Autorun (Obs_get flag (\<lambda>f.
                  if py_eq f (Obj 11 (PInt 1))
                  then Obs_get a (\<lambda>x. Obs_set flag (Obj 14 (PInt 0)) (Return py_None))
                  else Obs_get b (\<lambda>x. Return py_None)))
         (\<lambda>r. Return py_None))))"


text \<open>
  Two reactions on one cell, the first raising once the cell is not 0, and the cell written
  inside a batch that is still open:
  \<^verbatim>\<open>a = Observable(0)\<close>, \<^verbatim>\<open>autorun(lambda: fail() if a.get() != 0 else None)\<close>,
  \<^verbatim>\<open>autorun(lambda: log.append(a.get())); begin_batch(); a.set(1)\<close>.
  Cell 1, reactions 2 and 3.
\<close>

definition ex_raise_open :: state where
  "ex_raise_open =
     snd (run_script 30
       (New_Observable (Obj 40 (PInt 0)) (\<lambda>a.
          Autorun (Obs_get a (\<lambda>x. if py_ne x (Obj 40 (PInt 0)) then Raise else Return py_None)) (\<lambda>r1.
          Autorun (Obs_get a (\<lambda>x. Append [x] (Return py_None))) (\<lambda>r2.
            Begin_batch (Obs_set a (Obj 41 (PInt 1)) (Return py_None)))))))"





section \<open>Invariants of the dependency graph\<close>

text \<open>The events appended to the trace between two states.\<close>

definition new_events :: "state \<Rightarrow> state \<Rightarrow> event list" where
  "new_events s s' = drop (length (trace s)) (trace s')"

text \<open>
  Every observer edge has its dependency edge, and the ids in the tables (and the current
  derivation) are ids that \<^verbatim>\<open>new_id\<close> has handed out.
\<close>

definition edges_wf :: "state \<Rightarrow> bool" where
  "edges_wf s \<longleftrightarrow>
     (\<forall>a d. d \<in> set (observers s a) \<longrightarrow> a \<in> set (dependencies s d))
   \<and> (\<forall>a d. d \<in> set (observers s a) \<longrightarrow> d < id_counter s)
   \<and> (\<forall>a d. a \<in> set (dependencies s d) \<longrightarrow> a < id_counter s)
   \<and> (\<forall>d. kind s d \<noteq> None \<longrightarrow> d < id_counter s)
   \<and> (\<forall>d. current_derivation s = Some d \<longrightarrow> d < id_counter s)"

text \<open>The other half of I1: every dependency edge has its observer edge.\<close>

definition deps_observed :: "state \<Rightarrow> bool" where
  "deps_observed s \<longleftrightarrow> (\<forall>a d. a \<in> set (dependencies s d) \<longrightarrow> d \<in> set (observers s a))"

text \<open>I1: A is in B's dependencies iff B is in A's observers.\<close>

definition symmetric :: "state \<Rightarrow> bool" where
  "symmetric s \<longleftrightarrow> (\<forall>a b. a \<in> set (dependencies s b) \<longleftrightarrow> b \<in> set (observers s a))"

text \<open>
  A disposal of a Computed is quiet when the Computed had no observers left; an event list
  is quiet when every disposal of a Computed in it is.
\<close>

fun quiet_event :: "event \<Rightarrow> bool" where
  "quiet_event (DisposedComputed c os) = (os = [])"
| "quiet_event _ = True"

definition quiet :: "event list \<Rightarrow> bool" where
  "quiet evs = list_all quiet_event evs"

text \<open>
  The events that start or end an evaluation of derivation \<open>d\<close>: a call of its function,
  or its disposal.
\<close>

fun disturbs :: "nid \<Rightarrow> event \<Rightarrow> bool" where
  "disturbs d (CallFn x) = (x = d)"
| "disturbs d (DisposedReaction x) = (x = d)"
| "disturbs d (DisposedComputed x os) = (x = d)"
| "disturbs d _ = False"

definition undisturbed :: "nid \<Rightarrow> event list \<Rightarrow> bool" where
  "undisturbed d evs = (\<not> list_ex (disturbs d) evs)"

text \<open>The nodes whose \<^verbatim>\<open>get\<close> registered derivation \<open>d\<close>, in order.\<close>

fun reads_of :: "nid \<Rightarrow> event list \<Rightarrow> nid list" where
  "reads_of d [] = []"
| "reads_of d (Read x a # evs) = (if x = d then a # reads_of d evs else reads_of d evs)"
| "reads_of d (_ # evs) = reads_of d evs"

text \<open>How many times the function of \<open>d\<close> was called, and its effect function.\<close>

fun is_call :: "nid \<Rightarrow> event \<Rightarrow> bool" where
  "is_call d (CallFn x) = (x = d)"
| "is_call d _ = False"

definition calls_of :: "nid \<Rightarrow> event list \<Rightarrow> nat" where
  "calls_of d evs = length (filter (is_call d) evs)"



text \<open>The relations between the state before a call and the state after it.\<close>

definition sym_rel :: "state \<Rightarrow> state \<Rightarrow> bool" where
  "sym_rel s s' \<longleftrightarrow>
     prefix (trace s) (trace s') \<and> id_counter s \<le> id_counter s'
   \<and> (edges_wf s \<longrightarrow> edges_wf s')
   \<and> (edges_wf s \<and> deps_observed s \<and> quiet (new_events s s') \<longrightarrow> deps_observed s')"

definition reads_rel :: "state \<Rightarrow> state \<Rightarrow> bool" where
  "reads_rel s s' \<longleftrightarrow>
     prefix (trace s) (trace s') \<and> id_counter s \<le> id_counter s'
   \<and> (\<forall>d < id_counter s. undisturbed d (new_events s s') \<longrightarrow>
         set (dependencies s' d) = set (dependencies s d) \<union> set (reads_of d (new_events s s')))"

text \<open>
  The code that evaluates a derivation: \<^verbatim>\<open>_recompute\<close> for a Computed, \<^verbatim>\<open>_run\<close> for a Reaction
  or a data reaction.
\<close>

definition evaluation :: "state \<Rightarrow> nid \<Rightarrow> call" where
  "evaluation s d = (if kind s d = Some KComputed then Computed_recompute d else Run d)"

definition evaluable :: "state \<Rightarrow> nid \<Rightarrow> bool" where
  "evaluable s d \<longleftrightarrow>
     kind s d = Some KComputed
   \<or> ((kind s d = Some KReaction \<or> kind s d = Some KDataReaction) \<and> \<not> disposed s d)"

text \<open>\<open>k\<close> consecutive calls of \<^verbatim>\<open>c.get()\<close>, returning what the last one returned.\<close>

fun repeat_get :: "nat \<Rightarrow> nid \<Rightarrow> val \<Rightarrow> prog" where
  "repeat_get 0 c v = Return v"
| "repeat_get (Suc k) c v = Comp_get c (\<lambda>x. repeat_get k c x)"


text \<open>
  What a write amounts to while a batch is open: a changed value is stored and the cell's
  observers join the pending set; nothing else.
\<close>

definition batch_write :: "nid \<times> val \<Rightarrow> state \<Rightarrow> state" where
  "batch_write w s =
     (if \<not> py_is (values s (fst w)) (snd w) \<and> py_ne (values s (fst w)) (snd w)
      then fold pending_add (observers s (fst w)) (set_value (fst w) (snd w) s)
      else s)"

section \<open>Basic facts about the engine\<close>

lemma fold_remove_observer:
  "fold (\<lambda>dep. remove_observer dep d) xs s =
     s\<lparr>observers := (\<lambda>a. if a \<in> set xs then discard d (observers s a) else observers s a)\<rparr>"
proof (induction xs arbitrary: s)
  case Nil
  then show ?case by simp
next
  case (Cons x xs)
  show ?case
    by (simp add: Cons) (auto simp: remove_observer_def discard_def fun_eq_iff)
qed

lemma clear_dependencies_eq:
  "clear_dependencies d s =
     s\<lparr>observers := (\<lambda>a. if a \<in> set (dependencies s d) then discard d (observers s a) else observers s a),
       dependencies := (dependencies s)(d := [])\<rparr>"
  by (simp add: clear_dependencies_def fold_remove_observer Let_def)

lemma kind_track [simp]: "kind (track c s) = kind s"
  by (simp add: track_def split: option.splits)

lemma kind_init [simp]:
  "kind (snd (Reaction_init f s)) (fst (Reaction_init f s)) = Some KReaction"
  "kind (snd (DataReaction_init f e s)) (fst (DataReaction_init f e s)) = Some KDataReaction"
  by (simp_all add: Reaction_init_def DataReaction_init_def new_id_def)

lemma step_rel:
  fixes R :: "state \<Rightarrow> state \<Rightarrow> bool"
  assumes refl: "\<And>s. R s s"
    and trans: "\<And>s1 s2 s3. R s1 s2 \<Longrightarrow> R s2 s3 \<Longrightarrow> R s1 s3"
    and a_values: "\<And>s c v. R s (set_value c v s)"
    and a_pending_add: "\<And>s d. R s (pending_add d s)"
    and a_pending_clear: "\<And>s. R s (pending_clear s)"
    and a_dirty: "\<And>s d. R s (mark_dirty d s)"
    and a_enter_clear: "\<And>s d. kind s d \<noteq> None \<Longrightarrow> R s (enter d (clear_dependencies d s))"
    and a_enter: "\<And>s d. kind s d \<noteq> None \<Longrightarrow> R s (enter d s)"
    and a_reset: "\<And>s s2. R s s2 \<Longrightarrow> R s (reset (current_derivation s) s2)"
    and a_effect: "\<And>s d v. R s (note_effect d v (store_last d v s))"
    and a_last: "\<And>s d v. R s (store_last d v s)"
    and a_track: "\<And>s c. kind s c \<noteq> None \<Longrightarrow> R s (track c s)"
    and a_cache: "\<And>s c v. R s (store_cached c v s)"
    and a_begin: "\<And>s. R s (begin_batch s)"
    and a_leave: "\<And>s. R s (leave_batch s)"
    and a_new_obs: "\<And>s v. R s (snd (Observable_init v s))"
    and a_new_comp: "\<And>s f. R s (snd (Computed_init f s))"
    and a_new_reaction: "\<And>s f. R s (snd (Reaction_init f s))"
    and a_new_data: "\<And>s f e. R s (snd (DataReaction_init f e s))"
    and a_disp_comp: "\<And>s d. kind s d = Some KComputed \<Longrightarrow> R s (Computed_dispose d s)"
    and a_disp_reaction: "\<And>s d. kind s d \<noteq> None \<Longrightarrow> R s (Reaction_dispose d s)"
    and a_log: "\<And>s vs. R s (append_log vs s)"
    and IH: "\<And>c s r s'. rec c s = (r, s') \<Longrightarrow> call_ok c s \<Longrightarrow> R s s'"
    and ok: "call_ok c s"
    and p: "step rec c s = (r, s')"
  shows "R s s'"
proof -
  have seq: "\<And>c s0 s r s'. R s0 s \<Longrightarrow> rec c s = (r, s') \<Longrightarrow> call_ok c s \<Longrightarrow> R s0 s'"
    using IH trans by blast
  show ?thesis
  proof (cases c)
    case (Observable_set x v)
    then show ?thesis using p refl seq [OF a_values]
      by (auto split: if_splits)
  next
    case (Notify ds)
    show ?thesis
    proof (cases ds)
      case Nil
      then show ?thesis using p Notify refl by simp
    next
      case (Cons d ds')
      obtain r1 s1 where e1: "rec (Schedule d) s = (r1, s1)"
        by (cases "rec (Schedule d) s")
      have R1: "R s s1" using IH [OF e1] by simp
      show ?thesis using p Notify Cons e1 R1 seq [OF R1]
        by (cases r1) auto
    qed
  next
    case (Schedule d)
    then show ?thesis using p a_pending_add IH
      by (auto split: if_splits)
  next
    case (Run d)
    show ?thesis
    proof (cases "kind s d")
      case None
      then show ?thesis using p Run refl by simp
    next
      case (Some k)
      then have k: "kind s d \<noteq> None" by simp
      obtain r1 s1 where
        e1: "rec (Body (derivation_fns s d)) (enter d (clear_dependencies d s)) = (r1, s1)"
        by (cases "rec (Body (derivation_fns s d)) (enter d (clear_dependencies d s))")
      have "R s s1" using seq [OF a_enter_clear [OF k] e1] by simp
      then have R2: "R s (reset (current_derivation s) s1)" by (rule a_reset)
      show ?thesis
      proof (cases k)
        case KObservable
        then show ?thesis using p Run Some refl by simp
      next
        case KComputed
        then show ?thesis using p Run Some refl seq [OF a_dirty]
          by (auto split: if_splits)
      next
        case KReaction
        then show ?thesis using p Run Some refl e1 R2
          by (cases r1) (auto split: if_splits)
      next
        case KDataReaction
        have R3: "\<And>v. R s (note_effect d v (store_last d v (reset (current_derivation s) s1)))"
          using trans [OF R2 a_effect] .
        show ?thesis using p Run Some KDataReaction refl e1 R2 seq [OF R3]
          by (cases r1) (auto simp: Let_def split: if_splits sum.splits prod.splits)
      qed
    qed
  next
    case (Computed_get x)
    then have k: "kind s x \<noteq> None" using ok by simp
    then have k': "call_ok (Computed_recompute x) (track x s)" by simp
    obtain r1 s1 where e1: "rec (Computed_recompute x) (track x s) = (r1, s1)"
      by (cases "rec (Computed_recompute x) (track x s)")
    have R1: "R s s1" using seq [OF a_track [OF k] e1 k'] .
    show ?thesis using p Computed_get e1 R1 a_track [OF k]
      by (cases r1) (auto simp: Let_def split: if_splits)
  next
    case (Computed_recompute x)
    then have k: "kind s x \<noteq> None" using ok by simp
    obtain r1 s1 where e: "rec (Body (derivation_fns s x)) (enter x (clear_dependencies x s)) = (r1, s1)"
      by (cases "rec (Body (derivation_fns s x)) (enter x (clear_dependencies x s))")
    have "R s s1" using seq [OF a_enter_clear [OF k] e] by simp
    then have r2: "R s (reset (current_derivation s) s1)" by (rule a_reset)
    then have "\<And>v. R s (store_cached x v (reset (current_derivation s) s1))"
      using trans a_cache by blast
    then show ?thesis using p Computed_recompute e r2
      by (cases r1) auto
  next
    case Flush_pending
    obtain r1 s1 where e1: "rec (Flush_batch (pending s)) (pending_clear s) = (r1, s1)"
      by (cases "rec (Flush_batch (pending s)) (pending_clear s)")
    have R1: "R s s1" using seq [OF a_pending_clear e1] by simp
    show ?thesis using p Flush_pending e1 R1 refl seq [OF R1]
      by (cases r1) (auto split: if_splits)
  next
    case (Flush_batch ds)
    show ?thesis
    proof (cases ds)
      case Nil
      then show ?thesis using p Flush_batch refl by simp
    next
      case (Cons d ds')
      obtain r1 s1 where e1: "rec (Run d) s = (r1, s1)"
        by (cases "rec (Run d) s")
      have R1: "R s s1" using IH [OF e1] by simp
      show ?thesis using p Flush_batch Cons e1 R1 seq [OF R1]
        by (cases r1) auto
    qed
  next
    case End_batch_call
    then show ?thesis using p a_leave seq [OF a_leave]
      by (auto split: if_splits)
  next
    case (Body p')
    show ?thesis
    proof (cases p')
      case (Return x1)
      then show ?thesis using p Body refl by simp
    next
      case Raise
      then show ?thesis using p Body refl by simp
    next
      case (New_Observable x31 x32)
      then show ?thesis using p Body seq [OF a_new_obs] by auto
    next
      case (Obs_get x k)
      show ?thesis
      proof (cases "kind s x = Some KObservable")
        case True
        then have k: "kind s x \<noteq> None" by simp
        show ?thesis using p Body Obs_get True seq [OF a_track [OF k]] by auto
      next
        case False
        then show ?thesis using p Body Obs_get refl by simp
      qed
    next
      case (Obs_set x v k)
      obtain r1 s1 where e1: "rec (Observable_set x v) s = (r1, s1)"
        by (cases "rec (Observable_set x v) s")
      have R1: "R s s1" using IH [OF e1] by simp
      show ?thesis using p Body Obs_set e1 R1 refl seq [OF R1]
        by (cases r1) (auto split: if_splits)
    next
      case (New_Computed x61 x62)
      then show ?thesis using p Body seq [OF a_new_comp] by auto
    next
      case (Comp_get x k)
      show ?thesis
      proof (cases "kind s x = Some KComputed")
        case True
        then have k: "call_ok (Computed_get x) s" by simp
        obtain r1 s1 where e1: "rec (Computed_get x) s = (r1, s1)"
          by (cases "rec (Computed_get x) s")
        have R1: "R s s1" using IH [OF e1 k] .
        show ?thesis using p Body Comp_get True e1 R1 seq [OF R1]
          by (cases r1) auto
      next
        case False
        then show ?thesis using p Body Comp_get refl by simp
      qed
    next
      case (Autorun f k)
      let ?r = "fst (Reaction_init f s)"
      let ?s0 = "snd (Reaction_init f s)"
      obtain r1 s1 where e1: "rec (Run ?r) ?s0 = (r1, s1)"
        by (cases "rec (Run ?r) ?s0")
      have R1: "R s s1" using seq [OF a_new_reaction e1] by simp
      show ?thesis using p Body Autorun e1 R1 seq [OF R1]
        by (cases r1) auto
    next
      case (New_reaction f e b k)
      let ?r = "fst (DataReaction_init f e s)"
      let ?s0 = "snd (DataReaction_init f e s)"
      show ?thesis
      proof (cases b)
        case True
        obtain r1 s1 where e1: "rec (Run ?r) ?s0 = (r1, s1)"
          by (cases "rec (Run ?r) ?s0")
        have R1: "R s s1" using seq [OF a_new_data e1] by simp
        show ?thesis using p Body New_reaction True e1 R1 seq [OF R1]
          by (cases r1) (auto simp: Let_def)
      next
        case False
        obtain r1 s1 where e: "rec (Body f) (enter ?r ?s0) = (r1, s1)"
          by (cases "rec (Body f) (enter ?r ?s0)")
        have e1: "R ?s0 s1" using seq [OF a_enter e] by simp
        then have "R ?s0 (reset (current_derivation ?s0) s1)" by (rule a_reset)
        then have g1: "R s (reset (current_derivation ?s0) s1)" using trans a_new_data by blast
        have "\<And>v. R ?s0 (store_last ?r v s1)" using e1 trans a_last by blast
        then have "\<And>v. R ?s0 (reset (current_derivation ?s0) (store_last ?r v s1))" by (rule a_reset)
        then have g2: "\<And>v. R s (reset (current_derivation ?s0) (store_last ?r v s1))"
          using trans a_new_data by blast
        show ?thesis using p Body New_reaction False e g1 seq [OF g2]
          by (cases r1) (auto simp: Let_def)
      qed
    next
      case (Dispose d k)
      show ?thesis
      proof (cases "kind s d")
        case None
        then show ?thesis using p Body Dispose refl by simp
      next
        case (Some a)
        then have k: "kind s d \<noteq> None" by simp
        show ?thesis using p Body Dispose Some refl seq [OF a_disp_comp] seq [OF a_disp_reaction [OF k]]
          by (cases a) auto
      qed
    next
      case (Begin_batch x11)
      then show ?thesis using p Body seq [OF a_begin] by auto
    next
      case (End_batch k)
      obtain r1 s1 where e1: "rec End_batch_call s = (r1, s1)"
        by (cases "rec End_batch_call s")
      have R1: "R s s1" using IH [OF e1] by simp
      show ?thesis using p Body End_batch e1 R1 seq [OF R1]
        by (cases r1) auto
    next
      case (Transaction b k)
      obtain r1 s1 where e1: "rec (Body b) (begin_batch s) = (r1, s1)"
        by (cases "rec (Body b) (begin_batch s)")
      have R1: "R s s1" using seq [OF a_begin e1] by simp
      obtain r2 s2 where e2: "rec End_batch_call s1 = (r2, s2)"
        by (cases "rec End_batch_call s1")
      have R2: "R s s2" using seq [OF R1 e2] by simp
      show ?thesis using p Body Transaction e1 R1 e2 R2 seq [OF R2]
        by (cases r1; cases r2) (auto split: error.splits)
    next
      case (Get_pending_count x14)
      then show ?thesis using p Body IH by auto
    next
      case (Append x151 x152)
      then show ?thesis using p Body seq [OF a_log] by auto
    qed
  qed
qed


lemma exec_rel:
  fixes R :: "state \<Rightarrow> state \<Rightarrow> bool"
  assumes refl: "\<And>s. R s s"
    and trans: "\<And>s1 s2 s3. R s1 s2 \<Longrightarrow> R s2 s3 \<Longrightarrow> R s1 s3"
    and a_values: "\<And>s c v. R s (set_value c v s)"
    and a_pending_add: "\<And>s d. R s (pending_add d s)"
    and a_pending_clear: "\<And>s. R s (pending_clear s)"
    and a_dirty: "\<And>s d. R s (mark_dirty d s)"
    and a_enter_clear: "\<And>s d. kind s d \<noteq> None \<Longrightarrow> R s (enter d (clear_dependencies d s))"
    and a_enter: "\<And>s d. kind s d \<noteq> None \<Longrightarrow> R s (enter d s)"
    and a_reset: "\<And>s s2. R s s2 \<Longrightarrow> R s (reset (current_derivation s) s2)"
    and a_effect: "\<And>s d v. R s (note_effect d v (store_last d v s))"
    and a_last: "\<And>s d v. R s (store_last d v s)"
    and a_track: "\<And>s c. kind s c \<noteq> None \<Longrightarrow> R s (track c s)"
    and a_cache: "\<And>s c v. R s (store_cached c v s)"
    and a_begin: "\<And>s. R s (begin_batch s)"
    and a_leave: "\<And>s. R s (leave_batch s)"
    and a_new_obs: "\<And>s v. R s (snd (Observable_init v s))"
    and a_new_comp: "\<And>s f. R s (snd (Computed_init f s))"
    and a_new_reaction: "\<And>s f. R s (snd (Reaction_init f s))"
    and a_new_data: "\<And>s f e. R s (snd (DataReaction_init f e s))"
    and a_disp_comp: "\<And>s d. kind s d = Some KComputed \<Longrightarrow> R s (Computed_dispose d s)"
    and a_disp_reaction: "\<And>s d. kind s d \<noteq> None \<Longrightarrow> R s (Reaction_dispose d s)"
    and a_log: "\<And>s vs. R s (append_log vs s)"
  shows "exec n c s = (r, s') \<Longrightarrow> call_ok c s \<Longrightarrow> R s s'"
proof (induction n arbitrary: c s r s')
  case 0
  then show ?case using refl by simp
next
  case (Suc n)
  have p: "step (exec n) c s = (r, s')" using Suc.prems(1) by simp
  show ?case
    by (rule step_rel [where R = R and rec = "exec n", OF refl trans a_values a_pending_add
          a_pending_clear a_dirty a_enter_clear a_enter a_reset a_effect a_last a_track a_cache
          a_begin a_leave a_new_obs a_new_comp a_new_reaction a_new_data a_disp_comp
          a_disp_reaction a_log Suc.IH Suc.prems(2) p])
qed

lemma step_mono:
  assumes IH: "\<And>c s r s'. f c s = (r, s') \<Longrightarrow> r \<noteq> Inl OutOfFuel \<Longrightarrow> g c s = (r, s')"
    and p: "step f c s = (r, s')"
    and r: "r \<noteq> Inl OutOfFuel"
  shows "step g c s = (r, s')"
proof -
  have oof [simp]: "\<And>c s. fst (f c s) \<noteq> Inl OutOfFuel \<Longrightarrow> g c s = f c s"
    using IH by (metis prod.collapse)
  show ?thesis
  proof (cases c)
    case (Observable_set x v)
    then show ?thesis using p r IH by (auto split: if_splits)
  next
    case (Notify ds)
    show ?thesis
    proof (cases ds)
      case Nil
      then show ?thesis using p Notify by simp
    next
      case (Cons d ds')
      obtain r1 s1 where e1: "f (Schedule d) (s) = (r1, s1)"
        by (cases "f (Schedule d) (s)")
      have n1: "r1 \<noteq> Inl OutOfFuel" using p r e1 Notify Cons by (auto simp: Let_def split: if_splits)
      have g1: "g (Schedule d) (s) = (r1, s1)" using IH [OF e1 n1] .
      show ?thesis using p r e1 g1 Notify Cons
        by (cases r1) (auto simp: Let_def split: if_splits sum.splits prod.splits intro: IH)
    qed
  next
    case (Schedule d)
    then show ?thesis using p r IH by (auto split: if_splits)
  next
    case (Run d)
    show ?thesis
    proof (cases "kind s d")
      case None
      then show ?thesis using p Run by simp
    next
      case (Some k)
      show ?thesis
      proof (cases k)
        case KObservable
        then show ?thesis using p Run Some by simp
      next
        case KComputed
        then show ?thesis using p r Run Some IH by (auto split: if_splits)
      next
        case KReaction
        show ?thesis
        proof (cases "disposed s d")
          case True
          then show ?thesis using p Run Some KReaction by simp
        next
          case False
          obtain r1 s1 where e1: "f (Body (derivation_fns s d)) (enter d (clear_dependencies d s)) = (r1, s1)"
            by (cases "f (Body (derivation_fns s d)) (enter d (clear_dependencies d s))")
          have n1: "r1 \<noteq> Inl OutOfFuel" using p r e1 Run Some KReaction False by (auto simp: Let_def split: if_splits)
          have g1: "g (Body (derivation_fns s d)) (enter d (clear_dependencies d s)) = (r1, s1)" using IH [OF e1 n1] .
          show ?thesis using p r e1 g1 Run Some KReaction False
            by (cases r1) (auto simp: Let_def split: if_splits sum.splits prod.splits intro: IH)
    
        qed
      next
        case KDataReaction
        show ?thesis
        proof (cases "disposed s d")
          case True
          then show ?thesis using p Run Some KDataReaction by simp
        next
          case False
          obtain r1 s1 where e1: "f (Body (derivation_fns s d)) (enter d (clear_dependencies d s)) = (r1, s1)"
            by (cases "f (Body (derivation_fns s d)) (enter d (clear_dependencies d s))")
          have n1: "r1 \<noteq> Inl OutOfFuel" using p r e1 Run Some KDataReaction False
            by (auto simp: Let_def split: if_splits)
          have g1: "g (Body (derivation_fns s d)) (enter d (clear_dependencies d s)) = (r1, s1)"
            using IH [OF e1 n1] .
          show ?thesis
          proof (cases r1)
            case (Inl e)
            then show ?thesis using p r e1 g1 Run Some KDataReaction False by auto
          next
            case (Inr v)
            let ?s2 = "reset (current_derivation s) s1"
            let ?X = "Body (effect_fn ?s2 d v)"
            let ?st = "note_effect d v (store_last d v ?s2)"
            obtain r2 s2 where e2: "f ?X ?st = (r2, s2)" by (cases "f ?X ?st")
            show ?thesis
            proof (cases "\<not> initialized ?s2 d \<or> py_ne v (last_value ?s2 d)")
              case True
              have n2: "r2 \<noteq> Inl OutOfFuel" using p r e1 e2 Inr True Run Some KDataReaction False
                by (auto simp: Let_def split: if_splits)
              have g2: "g ?X ?st = (r2, s2)" using IH [OF e2 n2] .
              show ?thesis using p r e1 g1 e2 g2 Inr True Run Some KDataReaction False
                by (cases r2) (auto simp: Let_def)
            next
              case False2: False
              show ?thesis using p r e1 g1 Inr False2 Run Some KDataReaction False
                by (auto simp: Let_def)
            qed
          qed
        qed
      qed
    qed
  next
    case (Computed_get x)
    show ?thesis
    proof (cases "dirty_flags (track x s) x")
      case True
      obtain r1 s1 where e1: "f (Computed_recompute x) (track x s) = (r1, s1)"
        by (cases "f (Computed_recompute x) (track x s)")
      have n1: "r1 \<noteq> Inl OutOfFuel" using p r e1 Computed_get True by (auto simp: Let_def split: if_splits)
      have g1: "g (Computed_recompute x) (track x s) = (r1, s1)" using IH [OF e1 n1] .
      show ?thesis using p r e1 g1 Computed_get True
        by (cases r1) (auto simp: Let_def split: if_splits sum.splits prod.splits intro: IH)
    next
      case False
      then show ?thesis using p Computed_get by (auto simp: Let_def)
    qed
  next
    case (Computed_recompute x)
    show ?thesis
    proof -
      obtain r1 s1 where e1: "f (Body (derivation_fns s x)) (enter x (clear_dependencies x s)) = (r1, s1)"
        by (cases "f (Body (derivation_fns s x)) (enter x (clear_dependencies x s))")
      have n1: "r1 \<noteq> Inl OutOfFuel" using p r e1 Computed_recompute by (auto simp: Let_def split: if_splits)
      have g1: "g (Body (derivation_fns s x)) (enter x (clear_dependencies x s)) = (r1, s1)" using IH [OF e1 n1] .
      show ?thesis using p r e1 g1 Computed_recompute
        by (cases r1) (auto simp: Let_def split: if_splits sum.splits prod.splits intro: IH)
    qed
  next
    case Flush_pending
    show ?thesis
    proof (cases "pending s = []")
      case True
      then show ?thesis using p Flush_pending by simp
    next
      case False
      obtain r1 s1 where e1: "f (Flush_batch (pending s)) (pending_clear s) = (r1, s1)"
        by (cases "f (Flush_batch (pending s)) (pending_clear s)")
      have n1: "r1 \<noteq> Inl OutOfFuel" using p r e1 Flush_pending False by (auto simp: Let_def split: if_splits)
      have g1: "g (Flush_batch (pending s)) (pending_clear s) = (r1, s1)" using IH [OF e1 n1] .
      show ?thesis using p r e1 g1 Flush_pending False
        by (cases r1) (auto simp: Let_def split: if_splits sum.splits prod.splits intro: IH)
    qed
  next
    case (Flush_batch ds)
    show ?thesis
    proof (cases ds)
      case Nil
      then show ?thesis using p Flush_batch by simp
    next
      case (Cons d ds')
      obtain r1 s1 where e1: "f (Run d) (s) = (r1, s1)"
        by (cases "f (Run d) (s)")
      have n1: "r1 \<noteq> Inl OutOfFuel" using p r e1 Flush_batch Cons by (auto simp: Let_def split: if_splits)
      have g1: "g (Run d) (s) = (r1, s1)" using IH [OF e1 n1] .
      show ?thesis using p r e1 g1 Flush_batch Cons
        by (cases r1) (auto simp: Let_def split: if_splits sum.splits prod.splits intro: IH)
    qed
  next
    case End_batch_call
    then show ?thesis using p r IH by (auto split: if_splits)
  next
    case (Body p')
    show ?thesis
    proof (cases p')
      case (Return x1)
      then show ?thesis using p Body by simp
    next
      case Raise
      then show ?thesis using p Body by simp
    next
      case (New_Observable x31 x32)
      then show ?thesis using p r Body IH by auto
    next
      case (Obs_get x k)
      then show ?thesis using p r Body IH by (auto split: if_splits)
    next
      case (Obs_set x v k)
      show ?thesis
      proof (cases "kind s x = Some KObservable")
        case True
        obtain r1 s1 where e1: "f (Observable_set x v) (s) = (r1, s1)"
          by (cases "f (Observable_set x v) (s)")
        have n1: "r1 \<noteq> Inl OutOfFuel" using p r e1 Body Obs_set True by (auto simp: Let_def split: if_splits)
        have g1: "g (Observable_set x v) (s) = (r1, s1)" using IH [OF e1 n1] .
        show ?thesis using p r e1 g1 Body Obs_set True
          by (cases r1) (auto simp: Let_def split: if_splits sum.splits prod.splits intro: IH)
  
      next
        case False
        then show ?thesis using p Body Obs_set by simp
      qed
    next
      case (New_Computed x61 x62)
      then show ?thesis using p r Body IH by auto
    next
      case (Comp_get x k)
      show ?thesis
      proof (cases "kind s x = Some KComputed")
        case True
        obtain r1 s1 where e1: "f (Computed_get x) (s) = (r1, s1)"
          by (cases "f (Computed_get x) (s)")
        have n1: "r1 \<noteq> Inl OutOfFuel" using p r e1 Body Comp_get True by (auto simp: Let_def split: if_splits)
        have g1: "g (Computed_get x) (s) = (r1, s1)" using IH [OF e1 n1] .
        show ?thesis using p r e1 g1 Body Comp_get True
          by (cases r1) (auto simp: Let_def split: if_splits sum.splits prod.splits intro: IH)
  
      next
        case False
        then show ?thesis using p Body Comp_get by simp
      qed
    next
      case (Autorun fn k)
      show ?thesis
      proof -
        obtain r1 s1 where e1: "f (Run (fst (Reaction_init fn s))) (snd (Reaction_init fn s)) = (r1, s1)"
          by (cases "f (Run (fst (Reaction_init fn s))) (snd (Reaction_init fn s))")
        have n1: "r1 \<noteq> Inl OutOfFuel" using p r e1 Body Autorun by (auto simp: Let_def split: if_splits)
        have g1: "g (Run (fst (Reaction_init fn s))) (snd (Reaction_init fn s)) = (r1, s1)" using IH [OF e1 n1] .
        show ?thesis using p r e1 g1 Body Autorun
          by (cases r1) (auto simp: Let_def split: if_splits sum.splits prod.splits intro: IH)
  
      qed
    next
      case (New_reaction fn e b k)
      show ?thesis
      proof (cases b)
        case True
        obtain r1 s1 where e1: "f (Run (fst (DataReaction_init fn e s))) (snd (DataReaction_init fn e s)) = (r1, s1)"
          by (cases "f (Run (fst (DataReaction_init fn e s))) (snd (DataReaction_init fn e s))")
        have n1: "r1 \<noteq> Inl OutOfFuel" using p r e1 Body New_reaction True by (auto simp: Let_def split: if_splits)
        have g1: "g (Run (fst (DataReaction_init fn e s))) (snd (DataReaction_init fn e s)) = (r1, s1)" using IH [OF e1 n1] .
        show ?thesis using p r e1 g1 Body New_reaction True
          by (cases r1) (auto simp: Let_def split: if_splits sum.splits prod.splits intro: IH)
  
      next
        case False
        obtain r1 s1 where e1: "f (Body fn) (enter (fst (DataReaction_init fn e s)) (snd (DataReaction_init fn e s))) = (r1, s1)"
          by (cases "f (Body fn) (enter (fst (DataReaction_init fn e s)) (snd (DataReaction_init fn e s)))")
        have n1: "r1 \<noteq> Inl OutOfFuel" using p r e1 Body New_reaction False by (auto simp: Let_def split: if_splits)
        have g1: "g (Body fn) (enter (fst (DataReaction_init fn e s)) (snd (DataReaction_init fn e s))) = (r1, s1)" using IH [OF e1 n1] .
        show ?thesis using p r e1 g1 Body New_reaction False
          by (cases r1) (auto simp: Let_def split: if_splits sum.splits prod.splits intro: IH)
  
      qed
    next
      case (Dispose d k)
      then show ?thesis using p r Body IH
        by (auto split: option.splits kind.splits)
    next
      case (Begin_batch x11)
      then show ?thesis using p r Body IH by auto
    next
      case (End_batch k)
      show ?thesis
      proof -
        obtain r1 s1 where e1: "f (End_batch_call) (s) = (r1, s1)"
          by (cases "f (End_batch_call) (s)")
        have n1: "r1 \<noteq> Inl OutOfFuel" using p r e1 Body End_batch by (auto simp: Let_def split: if_splits)
        have g1: "g (End_batch_call) (s) = (r1, s1)" using IH [OF e1 n1] .
        show ?thesis using p r e1 g1 Body End_batch
          by (cases r1) (auto simp: Let_def split: if_splits sum.splits prod.splits intro: IH)
  
      qed
    next
      case (Transaction b k)
      obtain r1 s1 where e1: "f (Body b) (begin_batch s) = (r1, s1)"
        by (cases "f (Body b) (begin_batch s)")
      have n1: "r1 \<noteq> Inl OutOfFuel" using p r e1 Body Transaction by auto
      have g1: "g (Body b) (begin_batch s) = (r1, s1)" using IH [OF e1 n1] .
      obtain r2 s2 where e2: "f End_batch_call s1 = (r2, s2)"
        by (cases "f End_batch_call s1")
      have n2: "r2 \<noteq> Inl OutOfFuel" using p r e1 e2 n1 Body Transaction
        by (cases r1) (auto split: error.splits)
      have g2: "g End_batch_call s1 = (r2, s2)" using IH [OF e2 n2] .
      show ?thesis using p r e1 g1 e2 g2 Body Transaction
        by (cases r1; cases r2) (auto split: error.splits intro: IH)
    next
      case (Get_pending_count x14)
      then show ?thesis using p r Body IH by auto
    next
      case (Append x151 x152)
      then show ?thesis using p r Body IH by auto
    qed
  qed
qed

lemma exec_Suc_mono:
  "exec n c s = (r, s') \<Longrightarrow> r \<noteq> Inl OutOfFuel \<Longrightarrow> exec (Suc n) c s = (r, s')"
proof (induction n arbitrary: c s r s')
  case 0
  then show ?case by simp
next
  case (Suc n)
  show ?case using step_mono [of "exec n" "exec (Suc n)" c s r s'] Suc by simp
qed

lemma exec_mono:
  "exec n c s = (r, s') \<Longrightarrow> r \<noteq> Inl OutOfFuel \<Longrightarrow> exec (n + k) c s = (r, s')"
  by (induction k) (auto dest: exec_Suc_mono)

subsection \<open>Sets as lists\<close>

lemma set_set_add [simp]: "set (set_add x xs) = insert x (set xs)"
  by (auto simp: set_add_def)

lemma set_discard [simp]: "set (discard x xs) = set xs - {x}"
  by (auto simp: discard_def)

lemma discard_Nil [simp]: "discard x xs = [] \<longleftrightarrow> set xs \<subseteq> {x}"
  by (induction xs) (auto simp: discard_def)

subsection \<open>What each assignment leaves alone\<close>

lemmas frame_defs = set_value_def pending_add_def pending_clear_def mark_dirty_def
  store_last_def store_cached_def begin_batch_def leave_batch_def append_log_def

lemma frame_observers [simp]:
  "observers (set_value c v s) = observers s" "observers (pending_add d s) = observers s"
  "observers (pending_clear s) = observers s" "observers (mark_dirty d s) = observers s"
  "observers (store_last d v s) = observers s" "observers (store_cached c v s) = observers s"
  "observers (begin_batch s) = observers s" "observers (leave_batch s) = observers s"
  "observers (append_log vs s) = observers s" "observers (note_effect d v s) = observers s"
  "observers (enter d s) = observers s" "observers (reset t s) = observers s"
  by (simp_all add: frame_defs note_effect_def enter_def reset_def)

lemma frame_dependencies [simp]:
  "dependencies (set_value c v s) = dependencies s" "dependencies (pending_add d s) = dependencies s"
  "dependencies (pending_clear s) = dependencies s" "dependencies (mark_dirty d s) = dependencies s"
  "dependencies (store_last d v s) = dependencies s" "dependencies (store_cached c v s) = dependencies s"
  "dependencies (begin_batch s) = dependencies s" "dependencies (leave_batch s) = dependencies s"
  "dependencies (append_log vs s) = dependencies s" "dependencies (note_effect d v s) = dependencies s"
  "dependencies (enter d s) = dependencies s" "dependencies (reset t s) = dependencies s"
  by (simp_all add: frame_defs note_effect_def enter_def reset_def)

lemma frame_id_counter [simp]:
  "id_counter (set_value c v s) = id_counter s" "id_counter (pending_add d s) = id_counter s"
  "id_counter (pending_clear s) = id_counter s" "id_counter (mark_dirty d s) = id_counter s"
  "id_counter (store_last d v s) = id_counter s" "id_counter (store_cached c v s) = id_counter s"
  "id_counter (begin_batch s) = id_counter s" "id_counter (leave_batch s) = id_counter s"
  "id_counter (append_log vs s) = id_counter s" "id_counter (note_effect d v s) = id_counter s"
  "id_counter (enter d s) = id_counter s" "id_counter (reset t s) = id_counter s"
  "id_counter (track c s) = id_counter s" "id_counter (clear_dependencies d s) = id_counter s"
  "id_counter (Computed_dispose d s) = id_counter s" "id_counter (Reaction_dispose d s) = id_counter s"
  by (simp_all add: frame_defs note_effect_def enter_def reset_def track_def clear_dependencies_eq
        Computed_dispose_def Reaction_dispose_def Let_def split: option.splits)

lemma frame_kind [simp]:
  "kind (set_value c v s) = kind s" "kind (pending_add d s) = kind s"
  "kind (pending_clear s) = kind s" "kind (mark_dirty d s) = kind s"
  "kind (store_last d v s) = kind s" "kind (store_cached c v s) = kind s"
  "kind (begin_batch s) = kind s" "kind (leave_batch s) = kind s"
  "kind (append_log vs s) = kind s" "kind (note_effect d v s) = kind s"
  "kind (enter d s) = kind s" "kind (reset t s) = kind s"
  "kind (clear_dependencies d s) = kind s"
  "kind (Computed_dispose d s) = kind s" "kind (Reaction_dispose d s) = kind s"
  by (simp_all add: frame_defs note_effect_def enter_def reset_def clear_dependencies_eq
        Computed_dispose_def Reaction_dispose_def Let_def)

lemma frame_current [simp]:
  "current_derivation (set_value c v s) = current_derivation s"
  "current_derivation (pending_add d s) = current_derivation s"
  "current_derivation (pending_clear s) = current_derivation s"
  "current_derivation (mark_dirty d s) = current_derivation s"
  "current_derivation (store_last d v s) = current_derivation s"
  "current_derivation (store_cached c v s) = current_derivation s"
  "current_derivation (begin_batch s) = current_derivation s"
  "current_derivation (leave_batch s) = current_derivation s"
  "current_derivation (append_log vs s) = current_derivation s"
  "current_derivation (note_effect d v s) = current_derivation s"
  "current_derivation (enter d s) = Some d" "current_derivation (reset t s) = t"
  "current_derivation (track c s) = current_derivation s"
  "current_derivation (clear_dependencies d s) = current_derivation s"
  "current_derivation (Computed_dispose d s) = current_derivation s"
  "current_derivation (Reaction_dispose d s) = current_derivation s"
  by (simp_all add: frame_defs note_effect_def enter_def reset_def track_def clear_dependencies_eq
        Computed_dispose_def Reaction_dispose_def Let_def split: option.splits)

lemma frame_trace [simp]:
  "trace (set_value c v s) = trace s" "trace (pending_add d s) = trace s"
  "trace (pending_clear s) = trace s" "trace (mark_dirty d s) = trace s"
  "trace (store_last d v s) = trace s" "trace (store_cached c v s) = trace s"
  "trace (begin_batch s) = trace s" "trace (leave_batch s) = trace s"
  "trace (append_log vs s) = trace s" "trace (note_effect d v s) = trace s @ [CallEffect d v]"
  "trace (enter d s) = trace s @ [CallFn d]" "trace (reset t s) = trace s"
  "trace (clear_dependencies d s) = trace s"
  "trace (track c s) = trace s @ (case current_derivation s of None \<Rightarrow> [] | Some d \<Rightarrow> [Read d c])"
  "trace (Computed_dispose d s) = trace s @ [DisposedComputed d (observers (clear_dependencies d s) d)]"
  "trace (Reaction_dispose d s) = trace s @ [DisposedReaction d]"
  by (simp_all add: frame_defs note_effect_def enter_def reset_def track_def clear_dependencies_eq
        Computed_dispose_def Reaction_dispose_def Let_def split: option.splits)

lemma init_fields [simp]:
  "id_counter (snd (Observable_init v s)) = Suc (id_counter s)"
  "id_counter (snd (Computed_init f s)) = Suc (id_counter s)"
  "id_counter (snd (Reaction_init f s)) = Suc (id_counter s)"
  "id_counter (snd (DataReaction_init f e s)) = Suc (id_counter s)"
  "trace (snd (Observable_init v s)) = trace s"
  "trace (snd (Computed_init f s)) = trace s"
  "trace (snd (Reaction_init f s)) = trace s"
  "trace (snd (DataReaction_init f e s)) = trace s"
  "current_derivation (snd (Observable_init v s)) = current_derivation s"
  "current_derivation (snd (Computed_init f s)) = current_derivation s"
  "current_derivation (snd (Reaction_init f s)) = current_derivation s"
  "current_derivation (snd (DataReaction_init f e s)) = current_derivation s"
  "fst (Observable_init v s) = id_counter s"
  "fst (Computed_init f s) = id_counter s"
  "fst (Reaction_init f s) = id_counter s"
  "fst (DataReaction_init f e s) = id_counter s"
  by (simp_all add: Observable_init_def Computed_init_def Reaction_init_def DataReaction_init_def new_id_def)

lemma init_graph [simp]:
  "observers (snd (Observable_init v s)) = (observers s)(id_counter s := [])"
  "dependencies (snd (Observable_init v s)) = dependencies s"
  "kind (snd (Observable_init v s)) = (kind s)(id_counter s := Some KObservable)"
  "observers (snd (Computed_init f s)) = (observers s)(id_counter s := [])"
  "dependencies (snd (Computed_init f s)) = (dependencies s)(id_counter s := [])"
  "kind (snd (Computed_init f s)) = (kind s)(id_counter s := Some KComputed)"
  "observers (snd (Reaction_init f s)) = observers s"
  "dependencies (snd (Reaction_init f s)) = (dependencies s)(id_counter s := [])"
  "kind (snd (Reaction_init f s)) = (kind s)(id_counter s := Some KReaction)"
  "observers (snd (DataReaction_init f e s)) = observers s"
  "dependencies (snd (DataReaction_init f e s)) = (dependencies s)(id_counter s := [])"
  "kind (snd (DataReaction_init f e s)) = (kind s)(id_counter s := Some KDataReaction)"
  by (simp_all add: Observable_init_def Computed_init_def Reaction_init_def DataReaction_init_def new_id_def)

lemma clear_graph [simp]:
  "observers (clear_dependencies d s) =
     (\<lambda>a. if a \<in> set (dependencies s d) then discard d (observers s a) else observers s a)"
  "dependencies (clear_dependencies d s) = (dependencies s)(d := [])"
  by (simp_all add: clear_dependencies_eq)

lemma track_graph:
  "observers (track c s) =
     (case current_derivation s of None \<Rightarrow> observers s
      | Some d \<Rightarrow> (observers s)(c := set_add d (observers s c)))"
  "dependencies (track c s) =
     (case current_derivation s of None \<Rightarrow> dependencies s
      | Some d \<Rightarrow> (dependencies s)(d := set_add c (dependencies s d)))"
  by (simp_all add: track_def split: option.splits)

lemma dispose_graph [simp]:
  "observers (Computed_dispose d s) = (observers (clear_dependencies d s))(d := [])"
  "dependencies (Computed_dispose d s) = (dependencies s)(d := [])"
  "observers (Reaction_dispose d s) = observers (clear_dependencies d s)"
  "dependencies (Reaction_dispose d s) = (dependencies s)(d := [])"
  by (simp_all add: Computed_dispose_def Reaction_dispose_def Let_def clear_dependencies_eq fun_eq_iff)

subsection \<open>The graph invariants, assignment by assignment\<close>

lemma edges_wf_cong:
  "observers s' = observers s \<Longrightarrow> dependencies s' = dependencies s \<Longrightarrow>
   id_counter s' = id_counter s \<Longrightarrow> kind s' = kind s \<Longrightarrow>
   current_derivation s' = current_derivation s \<Longrightarrow> edges_wf s' = edges_wf s"
  by (simp add: edges_wf_def)

lemma edges_wf_frame [simp]:
  "edges_wf (set_value c v s) = edges_wf s" "edges_wf (pending_add d s) = edges_wf s"
  "edges_wf (pending_clear s) = edges_wf s" "edges_wf (mark_dirty d s) = edges_wf s"
  "edges_wf (store_last d v s) = edges_wf s" "edges_wf (store_cached c v s) = edges_wf s"
  "edges_wf (begin_batch s) = edges_wf s" "edges_wf (leave_batch s) = edges_wf s"
  "edges_wf (append_log vs s) = edges_wf s" "edges_wf (note_effect d v s) = edges_wf s"
  by (rule edges_wf_cong; simp)+

lemma edges_wf_clear: "edges_wf s \<Longrightarrow> edges_wf (clear_dependencies d s)"
  unfolding edges_wf_def by (auto split: if_splits)

lemma edges_wf_enter: "kind s d \<noteq> None \<Longrightarrow> edges_wf s \<Longrightarrow> edges_wf (enter d s)"
  unfolding edges_wf_def by simp

lemma edges_wf_reset:
  "edges_wf s \<Longrightarrow> (\<forall>d. t = Some d \<longrightarrow> d < id_counter s) \<Longrightarrow> edges_wf (reset t s)"
  unfolding edges_wf_def by simp

lemma edges_wf_track: "kind s c \<noteq> None \<Longrightarrow> edges_wf s \<Longrightarrow> edges_wf (track c s)"
  unfolding edges_wf_def by (cases "current_derivation s") (auto simp: track_graph)

lemma edges_wf_init:
  "edges_wf s \<Longrightarrow> edges_wf (snd (Observable_init v s))"
  "edges_wf s \<Longrightarrow> edges_wf (snd (Computed_init f s))"
  "edges_wf s \<Longrightarrow> edges_wf (snd (Reaction_init f s))"
  "edges_wf s \<Longrightarrow> edges_wf (snd (DataReaction_init f e s))"
  unfolding edges_wf_def by (auto simp: less_Suc_eq)

lemma edges_wf_dispose:
  "edges_wf s \<Longrightarrow> edges_wf (Computed_dispose d s)"
  "edges_wf s \<Longrightarrow> edges_wf (Reaction_dispose d s)"
  unfolding edges_wf_def by (auto split: if_splits)

lemma deps_observed_cong:
  "observers s' = observers s \<Longrightarrow> dependencies s' = dependencies s \<Longrightarrow>
   deps_observed s' = deps_observed s"
  by (simp add: deps_observed_def)

lemma deps_observed_frame [simp]:
  "deps_observed (set_value c v s) = deps_observed s" "deps_observed (pending_add d s) = deps_observed s"
  "deps_observed (pending_clear s) = deps_observed s" "deps_observed (mark_dirty d s) = deps_observed s"
  "deps_observed (store_last d v s) = deps_observed s" "deps_observed (store_cached c v s) = deps_observed s"
  "deps_observed (begin_batch s) = deps_observed s" "deps_observed (leave_batch s) = deps_observed s"
  "deps_observed (append_log vs s) = deps_observed s" "deps_observed (note_effect d v s) = deps_observed s"
  "deps_observed (enter d s) = deps_observed s" "deps_observed (reset t s) = deps_observed s"
  by (rule deps_observed_cong; simp)+

lemma deps_observed_clear: "deps_observed s \<Longrightarrow> deps_observed (clear_dependencies d s)"
  unfolding deps_observed_def by auto

lemma deps_observed_track: "deps_observed s \<Longrightarrow> deps_observed (track c s)"
  unfolding deps_observed_def by (cases "current_derivation s") (auto simp: track_graph)

lemma deps_observed_init:
  "edges_wf s \<Longrightarrow> deps_observed s \<Longrightarrow> deps_observed (snd (Observable_init v s))"
  "edges_wf s \<Longrightarrow> deps_observed s \<Longrightarrow> deps_observed (snd (Computed_init f s))"
  "edges_wf s \<Longrightarrow> deps_observed s \<Longrightarrow> deps_observed (snd (Reaction_init f s))"
  "edges_wf s \<Longrightarrow> deps_observed s \<Longrightarrow> deps_observed (snd (DataReaction_init f e s))"
  unfolding deps_observed_def edges_wf_def by (auto; blast)+

lemma deps_observed_dispose_reaction:
  "deps_observed s \<Longrightarrow> deps_observed (Reaction_dispose d s)"
  unfolding deps_observed_def by auto

lemma deps_observed_dispose_computed:
  "deps_observed s \<Longrightarrow> observers (clear_dependencies d s) d = [] \<Longrightarrow>
   deps_observed (Computed_dispose d s)"
proof -
  assume a: "deps_observed s" and b: "observers (clear_dependencies d s) d = []"
  have "deps_observed (clear_dependencies d s)" using a by (rule deps_observed_clear)
  moreover have "observers (Computed_dispose d s) = observers (clear_dependencies d s)"
    using b by (simp add: fun_eq_iff del: clear_graph)
  moreover have "dependencies (Computed_dispose d s) = dependencies (clear_dependencies d s)"
    by simp
  ultimately show ?thesis using deps_observed_cong by blast
qed

subsection \<open>The trace and the graph across a call\<close>

lemma new_events_refl [simp]: "new_events s s = []"
  by (simp add: new_events_def)

lemma new_events_trans:
  "prefix (trace s1) (trace s2) \<Longrightarrow> prefix (trace s2) (trace s3) \<Longrightarrow>
   new_events s1 s3 = new_events s1 s2 @ new_events s2 s3"
  by (auto simp: new_events_def prefix_def)

lemma new_events_append:
  "trace s' = trace s @ evs \<Longrightarrow> new_events s s' = evs"
  by (simp add: new_events_def)

lemma new_events_same:
  "trace s' = trace s \<Longrightarrow> new_events s s' = []"
  by (simp add: new_events_def)

lemma trace_new_events:
  "prefix (trace s) (trace s') \<Longrightarrow> trace s' = trace s @ new_events s s'"
  by (auto simp: new_events_def prefix_def)

lemma quiet_simps [simp]:
  "quiet []" "quiet (xs @ ys) \<longleftrightarrow> quiet xs \<and> quiet ys" "quiet (e # xs) \<longleftrightarrow> quiet_event e \<and> quiet xs"
  by (auto simp: quiet_def)

lemma undisturbed_simps [simp]:
  "undisturbed d []" "undisturbed d (xs @ ys) \<longleftrightarrow> undisturbed d xs \<and> undisturbed d ys"
  "undisturbed d (e # xs) \<longleftrightarrow> \<not> disturbs d e \<and> undisturbed d xs"
  by (auto simp: undisturbed_def)

lemma reads_of_append [simp]: "reads_of d (xs @ ys) = reads_of d xs @ reads_of d ys"
  by (induction d xs rule: reads_of.induct) auto

lemma exec_trace_prefix:
  "exec n c s = (r, s') \<Longrightarrow> call_ok c s \<Longrightarrow> prefix (trace s) (trace s') \<and> id_counter s \<le> id_counter s'"
  by (rule exec_rel [where R = "\<lambda>s s'. prefix (trace s) (trace s') \<and> id_counter s \<le> id_counter s'"])
     (auto split: option.splits)

lemma sym_rel_trans:
  assumes A: "sym_rel s1 s2" and B: "sym_rel s2 s3"
  shows "sym_rel s1 s3"
proof -
  have p12: "prefix (trace s1) (trace s2)" and p23: "prefix (trace s2) (trace s3)"
    using A B by (simp_all add: sym_rel_def)
  have ne: "new_events s1 s3 = new_events s1 s2 @ new_events s2 s3"
    using p12 p23 by (rule new_events_trans)
  have p13: "prefix (trace s1) (trace s3)" using p12 p23 by (rule prefix_order.trans)
  have ids: "id_counter s1 \<le> id_counter s3" using A B by (simp add: sym_rel_def)
  have wf: "edges_wf s1 \<longrightarrow> edges_wf s3" using A B by (simp add: sym_rel_def)
  have sym: "deps_observed s3"
    if w: "edges_wf s1" and d: "deps_observed s1" and n: "quiet (new_events s1 s3)"
  proof -
    have n12: "quiet (new_events s1 s2)" and n23: "quiet (new_events s2 s3)"
      using n ne by simp_all
    have w2: "edges_wf s2" using A w by (simp add: sym_rel_def)
    have d2: "deps_observed s2" using A w d n12 unfolding sym_rel_def by blast
    show ?thesis using B w2 d2 n23 unfolding sym_rel_def by blast
  qed
  show ?thesis unfolding sym_rel_def using p13 ids wf sym by blast
qed

lemma sym_rel_frame:
  assumes "observers s' = observers s" "dependencies s' = dependencies s"
    "id_counter s' = id_counter s" "kind s' = kind s"
    "current_derivation s' = current_derivation s" "prefix (trace s) (trace s')"
  shows "sym_rel s s'"
proof -
  have "edges_wf s' = edges_wf s" using assms(1-5) by (rule edges_wf_cong)
  moreover have "deps_observed s' = deps_observed s" using assms(1,2) by (rule deps_observed_cong)
  ultimately show ?thesis using assms(3,6) by (simp add: sym_rel_def)
qed

lemma exec_sym_rel:
  "exec n c s = (r, s') \<Longrightarrow> call_ok c s \<Longrightarrow> sym_rel s s'"
proof (rule exec_rel [where R = sym_rel], goal_cases)
  case (1 s)
  then show ?case by (simp add: sym_rel_def)
next
  case (2 s1 s2 s3)
  from 2(3,4) show ?case by (rule sym_rel_trans)
next
  case (3 s c v)
  then show ?case by (simp add: sym_rel_frame)
next
  case (4 s d)
  then show ?case by (simp add: sym_rel_frame)
next
  case (5 s)
  then show ?case by (simp add: sym_rel_frame)
next
  case (6 s d)
  then show ?case by (simp add: sym_rel_frame)
next
  case (7 s d)
  then show ?case
    by (simp add: sym_rel_def edges_wf_enter edges_wf_clear deps_observed_clear del: clear_graph)
next
  case (8 s d)
  then show ?case by (simp add: sym_rel_def edges_wf_enter)
next
  case (9 s s2)
  have le: "id_counter s \<le> id_counter s2" using 9(3) by (simp add: sym_rel_def)
  have "edges_wf (reset (current_derivation s) s2)" if "edges_wf s" "edges_wf s2"
  proof (rule edges_wf_reset)
    show "edges_wf s2" by fact
    show "\<forall>d. current_derivation s = Some d \<longrightarrow> d < id_counter s2"
      using that(1) le by (fastforce simp: edges_wf_def)
  qed
  moreover have "new_events s (reset (current_derivation s) s2) = new_events s s2"
    by (simp add: new_events_def)
  ultimately show ?case using 9(3) by (simp add: sym_rel_def)
next
  case (10 s d v)
  then show ?case by (simp add: sym_rel_frame)
next
  case (11 s d v)
  then show ?case by (simp add: sym_rel_frame)
next
  case (12 s c)
  then show ?case by (simp add: sym_rel_def edges_wf_track deps_observed_track)
next
  case (13 s c v)
  then show ?case by (simp add: sym_rel_frame)
next
  case (14 s)
  then show ?case by (simp add: sym_rel_frame)
next
  case (15 s)
  then show ?case by (simp add: sym_rel_frame)
next
  case (16 s v)
  then show ?case by (simp add: sym_rel_def edges_wf_init deps_observed_init del: init_graph)
next
  case (17 s f)
  then show ?case by (simp add: sym_rel_def edges_wf_init deps_observed_init del: init_graph)
next
  case (18 s f)
  then show ?case by (simp add: sym_rel_def edges_wf_init deps_observed_init del: init_graph)
next
  case (19 s f e)
  then show ?case by (simp add: sym_rel_def edges_wf_init deps_observed_init del: init_graph)
next
  case (20 s d)
  then show ?case
    by (simp add: sym_rel_def new_events_def edges_wf_dispose deps_observed_dispose_computed del: dispose_graph clear_graph)
next
  case (21 s d)
  then show ?case
    by (simp add: sym_rel_def edges_wf_dispose deps_observed_dispose_reaction del: dispose_graph clear_graph)
next
  case (22 s vs)
  then show ?case by (simp add: sym_rel_frame)
qed

lemma reads_rel_trans:
  assumes A: "reads_rel s1 s2" and B: "reads_rel s2 s3"
  shows "reads_rel s1 s3"
proof -
  have p12: "prefix (trace s1) (trace s2)" and p23: "prefix (trace s2) (trace s3)"
    using A B by (simp_all add: reads_rel_def)
  have ne: "new_events s1 s3 = new_events s1 s2 @ new_events s2 s3"
    using p12 p23 by (rule new_events_trans)
  have p13: "prefix (trace s1) (trace s3)" using p12 p23 by (rule prefix_order.trans)
  have i12: "id_counter s1 \<le> id_counter s2" and i23: "id_counter s2 \<le> id_counter s3"
    using A B by (simp_all add: reads_rel_def)
  have "set (dependencies s3 d) = set (dependencies s1 d) \<union> set (reads_of d (new_events s1 s3))"
    if d: "d < id_counter s1" and u: "undisturbed d (new_events s1 s3)" for d
  proof -
    have u12: "undisturbed d (new_events s1 s2)" and u23: "undisturbed d (new_events s2 s3)"
      using u ne by simp_all
    have d2: "d < id_counter s2" using d i12 by simp
    have "set (dependencies s2 d) = set (dependencies s1 d) \<union> set (reads_of d (new_events s1 s2))"
      using A d u12 unfolding reads_rel_def by blast
    moreover have "set (dependencies s3 d) = set (dependencies s2 d) \<union> set (reads_of d (new_events s2 s3))"
      using B d2 u23 unfolding reads_rel_def by blast
    ultimately show ?thesis using ne by auto
  qed
  then show ?thesis unfolding reads_rel_def using p13 i12 i23 by auto
qed

lemma reads_rel_frame:
  assumes "dependencies s' = dependencies s" "id_counter s' = id_counter s" "trace s' = trace s"
  shows "reads_rel s s'"
  using assms by (simp add: reads_rel_def new_events_same)

lemma reads_rel_silent:
  assumes "\<And>d. d < id_counter s \<Longrightarrow> dependencies s' d = dependencies s d"
    "id_counter s \<le> id_counter s'" "trace s' = trace s"
  shows "reads_rel s s'"
  using assms by (simp add: reads_rel_def new_events_same)

lemma exec_reads_rel:
  "exec n c s = (r, s') \<Longrightarrow> call_ok c s \<Longrightarrow> reads_rel s s'"
proof (rule exec_rel [where R = reads_rel], goal_cases)
  case (1 s)
  then show ?case by (simp add: reads_rel_def new_events_def)
next
  case (2 s1 s2 s3)
  from 2(3,4) show ?case by (rule reads_rel_trans)
next
  case (3 s c v)
  then show ?case by (simp add: reads_rel_frame)
next
  case (4 s d)
  then show ?case by (simp add: reads_rel_frame)
next
  case (5 s)
  then show ?case by (simp add: reads_rel_frame)
next
  case (6 s d)
  then show ?case by (simp add: reads_rel_frame)
next
  case (7 s d)
  then show ?case by (simp add: reads_rel_def new_events_def)
next
  case (8 s d)
  then show ?case by (simp add: reads_rel_def new_events_def)
next
  case (9 s s2)
  have "new_events s (reset (current_derivation s) s2) = new_events s s2"
    by (simp add: new_events_def)
  then show ?case using 9(3) by (simp add: reads_rel_def new_events_def)
next
  case (10 s d v)
  then show ?case by (simp add: reads_rel_def new_events_def)
next
  case (11 s d v)
  then show ?case by (simp add: reads_rel_frame)
next
  case (12 s c)
  then show ?case
    by (cases "current_derivation s") (auto simp: reads_rel_def new_events_def track_graph)
next
  case (13 s c v)
  then show ?case by (simp add: reads_rel_frame)
next
  case (14 s)
  then show ?case by (simp add: reads_rel_frame)
next
  case (15 s)
  then show ?case by (simp add: reads_rel_frame)
next
  case (16 s v)
  then show ?case by (simp add: reads_rel_silent)
next
  case (17 s f)
  then show ?case by (simp add: reads_rel_silent)
next
  case (18 s f)
  then show ?case by (simp add: reads_rel_silent)
next
  case (19 s f e)
  then show ?case by (simp add: reads_rel_silent)
next
  case (20 s d)
  then show ?case by (simp add: reads_rel_def new_events_def)
next
  case (21 s d)
  then show ?case by (simp add: reads_rel_def new_events_def)
next
  case (22 s vs)
  then show ?case by (simp add: reads_rel_frame)
qed

section \<open>Writes that change nothing\<close>

text \<open>
  C7 (no-op write suppression). Writing to a cell a value that is equal, by \<^verbatim>\<open>==\<close>, to the
  value it holds returns at once and leaves the whole state as it was: the value, every
  observers set, the pending set, every dirty flag, and the trace of function calls (so
  no observer was run or scheduled).
\<close>

theorem noop_write_suppressed:
  "py_eq (values s c) v \<Longrightarrow> exec (Suc n) (Observable_set c v) s = (Inr py_None, s)"
  by (simp add: py_ne_def)

text \<open>
  The test \<^verbatim>\<open>test_dedup\<close>: a cell holding 42 with an autorun observing it, written with
  another object that is also 42.
\<close>

theorem noop_write_suppressed_witness:
  "py_eq (values (ex_cell_with_autorun (Obj 5 (PInt 42))) 1) (Obj 6 (PInt 42))
   \<and> observers (ex_cell_with_autorun (Obj 5 (PInt 42))) 1 = [2]
   \<and> exec (Suc 0) (Observable_set 1 (Obj 6 (PInt 42))) (ex_cell_with_autorun (Obj 5 (PInt 42)))
       = (Inr py_None, ex_cell_with_autorun (Obj 5 (PInt 42)))"
proof -
  have h: "py_eq (values (ex_cell_with_autorun (Obj 5 (PInt 42))) 1) (Obj 6 (PInt 42))"
    by code_simp
  have o: "observers (ex_cell_with_autorun (Obj 5 (PInt 42))) 1 = [2]"
    by code_simp
  show ?thesis using h o noop_write_suppressed [OF h, of 0] by simp
qed

text \<open>
  C10 (identity shortcut). Writing to a cell the very object it holds changes nothing, also
  when that object is not equal to itself; and a write that does anything at all was given
  a value that is both another object than the stored one and unequal to it.
\<close>

theorem identity_shortcut:
  "(py_is (values s c) v \<longrightarrow> exec (Suc n) (Observable_set c v) s = (Inr py_None, s))
   \<and> (exec (Suc n) (Observable_set c v) s \<noteq> (Inr py_None, s)
        \<longrightarrow> \<not> py_is (values s c) v \<and> py_ne (values s c) v)"
  by simp

text \<open>
  A cell holding a NaN, observed by an autorun, written with the same NaN object; and the
  same cell written with the number 1.
\<close>

theorem identity_shortcut_witness:
  "py_is (values (ex_cell_with_autorun (Obj 5 PNaN)) 1) (Obj 5 PNaN)
   \<and> py_ne (Obj 5 PNaN) (Obj 5 PNaN)
   \<and> exec (Suc 5) (Observable_set 1 (Obj 5 PNaN)) (ex_cell_with_autorun (Obj 5 PNaN))
       = (Inr py_None, ex_cell_with_autorun (Obj 5 PNaN))
   \<and> exec (Suc 5) (Observable_set 1 (Obj 6 (PInt 1))) (ex_cell_with_autorun (Obj 5 PNaN))
       \<noteq> (Inr py_None, ex_cell_with_autorun (Obj 5 PNaN))
   \<and> \<not> py_is (values (ex_cell_with_autorun (Obj 5 PNaN)) 1) (Obj 6 (PInt 1))
   \<and> py_ne (values (ex_cell_with_autorun (Obj 5 PNaN)) 1) (Obj 6 (PInt 1))"
proof -
  let ?s = "ex_cell_with_autorun (Obj 5 PNaN)"
  have a: "py_is (values ?s 1) (Obj 5 PNaN)" by code_simp
  have b: "py_ne (Obj 5 PNaN) (Obj 5 PNaN)" by code_simp
  have "log (snd (exec (Suc 5) (Observable_set 1 (Obj 6 (PInt 1))) ?s)) \<noteq> log ?s"
    by code_simp
  then have c: "exec (Suc 5) (Observable_set 1 (Obj 6 (PInt 1))) ?s \<noteq> (Inr py_None, ?s)"
    by (metis snd_conv)
  show ?thesis
    using identity_shortcut [of ?s 1 "Obj 5 PNaN" 5] identity_shortcut [of ?s 1 "Obj 6 (PInt 1)" 5]
      a b c by blast
qed

section \<open>Triggering twice\<close>


lemma set_add_idem: "set_add x (set_add x xs) = set_add x xs"
  by (simp add: set_add_def)






section \<open>Laziness of Computed\<close>

lemma exec_kind:
  "exec n c s = (r, s') \<Longrightarrow> call_ok c s \<Longrightarrow>
     id_counter s \<le> id_counter s' \<and> (\<forall>d < id_counter s. kind s' d = kind s d)"
  by (rule exec_rel [where R = "\<lambda>s s'. id_counter s \<le> id_counter s' \<and> (\<forall>d < id_counter s. kind s' d = kind s d)"])
     auto

lemma calls_of_simps [simp]:
  "calls_of d [] = 0" "calls_of d (xs @ ys) = calls_of d xs + calls_of d ys"
  "calls_of d (e # xs) = (if is_call d e then 1 else 0) + calls_of d xs"
  by (simp_all add: calls_of_def)

lemma track_dirty [simp]:
  "dirty_flags (track c s) = dirty_flags s" "cached_values (track c s) = cached_values s"
  "derivation_fns (track c s) = derivation_fns s"
  by (simp_all add: track_def split: option.splits)

lemma calls_of_track: "calls_of c (new_events s (track x s)) = 0"
  by (cases "current_derivation s") (simp_all add: new_events_def)

text \<open>Reading a clean Computed any number of times only registers the reader.\<close>

lemma clean_gets:
  assumes "kind s c = Some KComputed" "\<not> dirty_flags s c" "k + 2 \<le> f"
  shows "exec f (Body (repeat_get k c x)) s
         = (Inr (if k = 0 then x else cached_values s c), (track c ^^ k) s)"
  using assms
proof (induction k arbitrary: f s x)
  case 0
  then obtain f' where "f = Suc f'" by (cases f) auto
  then show ?case by simp
next
  case (Suc k)
  then obtain f' where f: "f = Suc (Suc f')" and le: "k + 2 \<le> Suc f'"
    by (cases f; cases "f - 1") auto
  have g: "exec (Suc f') (Computed_get c) s = (Inr (cached_values s c), track c s)"
    using Suc.prems(1,2) by (simp add: Let_def)
  have "exec (Suc f') (Body (repeat_get k c (cached_values s c))) (track c s)
        = (Inr (if k = 0 then cached_values s c else cached_values (track c s) c), (track c ^^ k) (track c s))"
    using Suc.IH [of "track c s" "Suc f'" "cached_values s c"] Suc.prems(1,2) le by simp
  then show ?case using f g Suc.prems(1) by (simp add: funpow_swap1)
qed

lemma funpow_track_trace:
  "calls_of c (new_events s ((track x ^^ k) s)) = 0 \<and> prefix (trace s) (trace ((track x ^^ k) s))
   \<and> dirty_flags ((track x ^^ k) s) = dirty_flags s"
proof (induction k)
  case 0
  then show ?case by simp
next
  case (Suc k)
  let ?s1 = "(track x ^^ k) s"
  have p: "prefix (trace ?s1) (trace (track x ?s1))"
    by (cases "current_derivation ?s1") simp_all
  have p0: "prefix (trace s) (trace ?s1)" using Suc by blast
  have "new_events s (track x ?s1) = new_events s ?s1 @ new_events ?s1 (track x ?s1)"
    using p0 p by (rule new_events_trans)
  then have "calls_of c (new_events s (track x ?s1)) = 0"
    using Suc calls_of_track [of c ?s1 x] by simp
  moreover have "prefix (trace s) (trace (track x ?s1))" using p0 p by (rule prefix_order.trans)
  moreover have "dirty_flags (track x ?s1) = dirty_flags s" using Suc by simp
  ultimately show ?case by simp
qed

text \<open>
  C5 (laziness). Constructing a Computed calls nothing and leaves it dirty. A \<^verbatim>\<open>get()\<close> on a
  clean Computed returns the cached value and only registers the reader. And when a dirty
  Computed is read any number of times in a row, its function having returned \<open>v\<close> on the
  first read without reading the Computed itself again, every read returns \<open>v\<close> and the
  function has been called exactly once.
\<close>

theorem computed_lazy:
  "(trace (snd (Computed_init fn s)) = trace s
      \<and> dirty_flags (snd (Computed_init fn s)) (fst (Computed_init fn s)))
   \<and> (kind s c = Some KComputed \<and> \<not> dirty_flags s c
      \<longrightarrow> exec (Suc m) (Computed_get c) s = (Inr (cached_values s c), track c s)
        \<and> calls_of c (new_events s (track c s)) = 0)
   \<and> (kind s c = Some KComputed \<and> c < id_counter s \<and> dirty_flags s c
        \<and> exec n (Body (derivation_fns s c)) (enter c (clear_dependencies c (track c s))) = (Inr v, s1)
        \<and> calls_of c (new_events s s1) = 1
      \<longrightarrow> (\<forall>k. \<exists>s'. exec (n + k + 5) (Body (repeat_get (Suc k) c v0)) s = (Inr v, s')
                 \<and> calls_of c (new_events s s') = 1 \<and> \<not> dirty_flags s' c))"
proof (intro conjI impI allI)
  show "trace (snd (Computed_init fn s)) = trace s" by simp
  show "dirty_flags (snd (Computed_init fn s)) (fst (Computed_init fn s))"
    by (simp add: Computed_init_def new_id_def)
next
  assume "kind s c = Some KComputed \<and> \<not> dirty_flags s c"
  then show "exec (Suc m) (Computed_get c) s = (Inr (cached_values s c), track c s)"
    by (simp add: Let_def)
next
  show "calls_of c (new_events s (track c s)) = 0" by (rule calls_of_track)
next
  fix k
  assume a: "kind s c = Some KComputed \<and> c < id_counter s \<and> dirty_flags s c
        \<and> exec n (Body (derivation_fns s c)) (enter c (clear_dependencies c (track c s))) = (Inr v, s1)
        \<and> calls_of c (new_events s s1) = 1"
  let ?s0 = "enter c (clear_dependencies c (track c s))"
  let ?s2 = "store_cached c v (reset (current_derivation s) s1)"
  have body: "exec n (Body (derivation_fns s c)) ?s0 = (Inr v, s1)" using a by simp
  define N where "N = n + k + 4"
  have eqN: "N = Suc (Suc (n + k + 2))" by (simp add: N_def)
  have body': "exec (n + k + 2) (Body (derivation_fns s c)) ?s0 = (Inr v, s1)"
    using exec_mono [OF body, of "k + 2"] by (simp add: add.assoc)
  have rec: "exec (Suc (n + k + 2)) (Computed_recompute c) (track c s) = (Inr py_None, ?s2)"
    using body' by simp
  have "step (exec (Suc (n + k + 2))) (Computed_get c) s = (Inr v, ?s2)"
    using rec a by (simp add: Let_def store_cached_def del: exec.simps)
  then have get: "exec N (Computed_get c) s = (Inr v, ?s2)"
    unfolding eqN by simp
  have kr: "id_counter ?s0 \<le> id_counter s1 \<and> (\<forall>d < id_counter ?s0. kind s1 d = kind ?s0 d)"
    using exec_kind [OF body] by simp
  then have k2: "kind ?s2 c = Some KComputed" using a by simp
  have d2: "\<not> dirty_flags ?s2 c" "cached_values ?s2 c = v" by (simp_all add: store_cached_def)
  have rest: "exec N (Body (repeat_get k c v)) ?s2
              = (Inr (if k = 0 then v else cached_values ?s2 c), (track c ^^ k) ?s2)"
    by (rule clean_gets [OF k2 d2(1)]) (simp add: N_def)
  have "exec (Suc N) (Body (repeat_get (Suc k) c v0)) s = (Inr v, (track c ^^ k) ?s2)"
    using get rest a d2 by simp
  moreover have "n + k + 5 = Suc N" by (simp add: N_def)
  ultimately have all: "exec (n + k + 5) (Body (repeat_get (Suc k) c v0)) s = (Inr v, (track c ^^ k) ?s2)"
    by (simp only:)
  have p1: "prefix (trace ?s0) (trace s1)" using exec_trace_prefix [OF body] by simp
  have t2: "new_events s ?s2 = new_events s s1"
    by (simp add: new_events_def)
  have p2: "prefix (trace s) (trace ?s2)"
  proof -
    have "prefix (trace s) (trace ?s0)" by (cases "current_derivation s") simp_all
    then have "prefix (trace s) (trace s1)" using p1 by (rule prefix_order.trans)
    then show ?thesis by simp
  qed
  have fin: "calls_of c (new_events s ((track c ^^ k) ?s2)) = 1"
  proof -
    have p3: "prefix (trace ?s2) (trace ((track c ^^ k) ?s2))"
      and z: "calls_of c (new_events ?s2 ((track c ^^ k) ?s2)) = 0"
      using funpow_track_trace [where c = c and s = "?s2" and x = c and k = k] by blast+
    have "new_events s ((track c ^^ k) ?s2) = new_events s ?s2 @ new_events ?s2 ((track c ^^ k) ?s2)"
      using p2 p3 by (rule new_events_trans)
    then have "calls_of c (new_events s ((track c ^^ k) ?s2))
               = calls_of c (new_events s s1) + calls_of c (new_events ?s2 ((track c ^^ k) ?s2))"
      using t2 by (simp only: calls_of_simps)
    then show ?thesis using a z by simp
  qed
  have "\<not> dirty_flags ((track c ^^ k) ?s2) c"
    using funpow_track_trace [where c = c and s = "?s2" and x = c and k = k] d2 by simp
  then show "\<exists>s'. exec (n + k + 5) (Body (repeat_get (Suc k) c v0)) s = (Inr v, s')
                 \<and> calls_of c (new_events s s') = 1 \<and> \<not> dirty_flags s' c"
    using all fin by blast
qed


text \<open>
  \<^verbatim>\<open>test_lazy_eval\<close> and \<^verbatim>\<open>test_caches_until_dirty\<close>: the function has not been called when the
  Computed is built, and has been called once after two consecutive reads.
\<close>

theorem computed_lazy_witness:
  "kind ex_computed 2 = Some KComputed \<and> 2 < id_counter ex_computed \<and> dirty_flags ex_computed 2
   \<and> calls_of 2 (trace ex_computed) = 0
   \<and> fst (exec (5 + 1 + 5) (Body (repeat_get (Suc 1) 2 py_None)) ex_computed) = Inr (Obj 15 (PInt 5))
   \<and> calls_of 2 (new_events ex_computed
         (snd (exec (5 + 1 + 5) (Body (repeat_get (Suc 1) 2 py_None)) ex_computed))) = 1"
proof -
  let ?s0 = "enter 2 (clear_dependencies 2 (track 2 ex_computed))"
  let ?s1 = "snd (exec 5 (Body (derivation_fns ex_computed 2)) ?s0)"
  have h: "kind ex_computed 2 = Some KComputed" "2 < id_counter ex_computed"
    "dirty_flags ex_computed 2" "calls_of 2 (trace ex_computed) = 0"
    by code_simp+
  have "fst (exec 5 (Body (derivation_fns ex_computed 2)) ?s0) = Inr (Obj 15 (PInt 5))"
    by code_simp
  then have b: "exec 5 (Body (derivation_fns ex_computed 2)) ?s0 = (Inr (Obj 15 (PInt 5)), ?s1)"
    by (metis prod.collapse)
  have c: "calls_of 2 (new_events ex_computed ?s1) = 1" by code_simp
  have "\<exists>s'. exec (5 + 1 + 5) (Body (repeat_get (Suc 1) 2 py_None)) ex_computed
               = (Inr (Obj 15 (PInt 5)), s')
             \<and> calls_of 2 (new_events ex_computed s') = 1 \<and> \<not> dirty_flags s' 2"
    using computed_lazy [of "Return py_None" ex_computed 2 0 5 "Obj 15 (PInt 5)" ?s1 py_None] h b c
    by blast
  then show ?thesis using h by auto
qed

section \<open>The value gate of data reactions\<close>

lemma reset_fields [simp]:
  "initialized (reset t s) = initialized s" "last_value (reset t s) = last_value s"
  "effect_fn (reset t s) = effect_fn s"
  by (simp_all add: reset_def)




section \<open>Symmetry of the edges\<close>

lemma symmetric_iff:
  "symmetric s \<longleftrightarrow>
     (\<forall>a d. d \<in> set (observers s a) \<longrightarrow> a \<in> set (dependencies s d)) \<and> deps_observed s"
  by (auto simp: symmetric_def deps_observed_def)

lemma init_state_wf: "edges_wf init_state" "symmetric init_state"
  by (simp_all add: edges_wf_def symmetric_def init_state_def)

text \<open>
  C3 (symmetry, I1), as the code has it. From a state where every edge is symmetric, any
  client code (any sequence of public operations, completed or raising) leads to a state
  where every observers entry has its dependencies entry; and the state is symmetric again
  as long as no Computed that still had observers was disposed on the way.
\<close>

theorem symmetry_kept_without_computed_dispose:
  assumes "edges_wf s" and "symmetric s" and "exec n (Body p) s = (r, s')"
  shows "(\<forall>a b. b \<in> set (observers s' a) \<longrightarrow> a \<in> set (dependencies s' b))
       \<and> (quiet (new_events s s') \<longrightarrow> symmetric s')"
proof -
  have R: "sym_rel s s'" using exec_sym_rel [OF assms(3)] by simp
  have w: "edges_wf s'" using R assms(1) by (simp add: sym_rel_def)
  have d: "deps_observed s" using assms(2) by (simp add: symmetric_iff)
  have "deps_observed s'" if "quiet (new_events s s')"
    using R assms(1) d that unfolding sym_rel_def by blast
  then show ?thesis using w by (auto simp: symmetric_iff edges_wf_def)
qed

theorem symmetry_kept_without_computed_dispose_witness:
  "edges_wf init_state \<and> symmetric init_state
   \<and> quiet (new_events init_state (snd (exec 20 (Body ex_dispose_reaction) init_state)))
   \<and> symmetric (snd (exec 20 (Body ex_dispose_reaction) init_state))"
proof -
  have q: "quiet (new_events init_state (snd (exec 20 (Body ex_dispose_reaction) init_state)))"
    by code_simp
  have e: "exec 20 (Body ex_dispose_reaction) init_state
         = (fst (exec 20 (Body ex_dispose_reaction) init_state),
            snd (exec 20 (Body ex_dispose_reaction) init_state))"
    by simp
  show ?thesis
    using symmetry_kept_without_computed_dispose [OF init_state_wf e] q init_state_wf by blast
qed

text \<open>
  The claim as stated fails: after \<^verbatim>\<open>c.dispose()\<close> on a Computed that a reaction observes, the
  script has returned, no evaluation is in flight, the Computed is still in the reaction's
  dependencies and the reaction is no longer among the Computed's observers.
\<close>

theorem computed_dispose_breaks_symmetry:
  "fst (run_script 20 ex_dispose_computed) = Inr py_None
   \<and> current_derivation (snd (run_script 20 ex_dispose_computed)) = None
   \<and> 2 \<in> set (dependencies (snd (run_script 20 ex_dispose_computed)) 3)
   \<and> 3 \<notin> set (observers (snd (run_script 20 ex_dispose_computed)) 2)
   \<and> \<not> symmetric (snd (run_script 20 ex_dispose_computed))"
proof -
  have a: "fst (run_script 20 ex_dispose_computed) = Inr py_None"
    and b: "current_derivation (snd (run_script 20 ex_dispose_computed)) = None"
    and c: "2 \<in> set (dependencies (snd (run_script 20 ex_dispose_computed)) 3)"
    and d: "3 \<notin> set (observers (snd (run_script 20 ex_dispose_computed)) 2)"
    by code_simp+
  show ?thesis using a b c d by (auto simp: symmetric_def)
qed

section \<open>Freshness of the dependencies\<close>

lemma evaluation_body:
  assumes ev: "evaluable s d"
    and ex: "exec (Suc n) (evaluation s d) s = (r, s')"
  shows "\<exists>evs. new_events s s' = CallFn d # evs
           \<and> (undisturbed d evs \<longrightarrow> d < id_counter s \<longrightarrow> set (dependencies s' d) = set (reads_of d evs))"
proof -
  let ?s0 = "enter d (clear_dependencies d s)"
  obtain r1 s1 where e1: "exec n (Body (derivation_fns s d)) ?s0 = (r1, s1)"
    by (cases "exec n (Body (derivation_fns s d)) ?s0")
  have R1: "reads_rel ?s0 s1" using exec_reads_rel [OF e1] by simp
  have p1: "prefix (trace ?s0) (trace s1)" using R1 by (simp add: reads_rel_def)
  have t1: "trace s1 = trace s @ CallFn d # new_events ?s0 s1"
    using trace_new_events [OF p1] by simp
  have d1: "set (dependencies s1 d) = set (reads_of d (new_events ?s0 s1))"
    if "undisturbed d (new_events ?s0 s1)" "d < id_counter s"
    using R1 that unfolding reads_rel_def by simp
  let ?s2 = "reset (current_derivation s) s1"
  have k: "kind s d = Some KComputed \<or> kind s d = Some KReaction \<or> kind s d = Some KDataReaction"
    using ev by (auto simp: evaluable_def)
  have fin: "new_events s s' = CallFn d # new_events ?s0 s1 \<and> dependencies s' = dependencies s1"
    if "s' = ?s2 \<or> (\<exists>v. s' = store_cached d v ?s2)"
  proof -
    have a: "trace s' = trace s1" and b: "dependencies s' = dependencies s1"
      using that by auto
    have "trace s' = trace s @ (CallFn d # new_events ?s0 s1)" using a t1 by simp
    then show ?thesis using b by (simp add: new_events_append)
  qed
  show ?thesis
  proof (cases "kind s d = Some KDataReaction")
    case False
    have "s' = ?s2 \<or> (\<exists>v. s' = store_cached d v ?s2)"
    proof (cases "kind s d = Some KComputed")
      case True
      then show ?thesis using ex e1 by (cases r1) (auto simp: evaluation_def)
    next
      case F2: False
      then have "kind s d = Some KReaction" "\<not> disposed s d"
        using k False ev by (simp_all add: evaluable_def)
      then show ?thesis using ex e1 by (cases r1) (auto simp: evaluation_def)
    qed
    then show ?thesis using fin d1 by simp
  next
    case True
    then have nd: "\<not> disposed s d" using ev by (simp add: evaluable_def)
    show ?thesis
    proof (cases r1)
      case (Inl e)
      then have "s' = ?s2"
        using True nd ex e1 by (auto simp: evaluation_def)
      then show ?thesis using fin d1 by simp
    next
      case (Inr v)
      show ?thesis
      proof (cases "\<not> initialized ?s2 d \<or> py_ne v (last_value ?s2 d)")
        case False
        then have "s' = ?s2"
          using True nd ex e1 Inr by (auto simp: evaluation_def Let_def)
        then show ?thesis using fin d1 by simp
      next
        case c: True
        let ?s3 = "note_effect d v (store_last d v ?s2)"
        obtain r2 s4 where e2: "exec n (Body (effect_fn ?s2 d v)) ?s3 = (r2, s4)"
          by (cases "exec n (Body (effect_fn ?s2 d v)) ?s3")
        have s': "s' = s4" using True nd ex e1 Inr c e2
          by (cases r2) (auto simp: evaluation_def Let_def)
        have R2: "reads_rel ?s3 s4" using exec_reads_rel [OF e2] by simp
        have p2: "prefix (trace ?s3) (trace s4)" using R2 by (simp add: reads_rel_def)
        have t2: "trace s4 = trace s1 @ CallEffect d v # new_events ?s3 s4"
          using trace_new_events [OF p2] by simp
        have le: "id_counter s \<le> id_counter s1" using R1 by (simp add: reads_rel_def)
        have ne: "new_events s s' = CallFn d # (new_events ?s0 s1 @ CallEffect d v # new_events ?s3 s4)"
        proof -
          have "trace s' = trace s @ (CallFn d # (new_events ?s0 s1 @ CallEffect d v # new_events ?s3 s4))"
            using t1 t2 s' by simp
          then show ?thesis by (rule new_events_append)
        qed
        have "set (dependencies s4 d) = set (reads_of d (new_events ?s0 s1 @ CallEffect d v # new_events ?s3 s4))"
          if u: "undisturbed d (new_events ?s0 s1 @ CallEffect d v # new_events ?s3 s4)"
            and d: "d < id_counter s"
        proof -
          have "set (dependencies s4 d) = set (dependencies ?s3 d) \<union> set (reads_of d (new_events ?s3 s4))"
            using R2 u d le unfolding reads_rel_def by simp
          moreover have "set (dependencies ?s3 d) = set (reads_of d (new_events ?s0 s1))"
            using d1 u d by simp
          ultimately show ?thesis by simp
        qed
        then show ?thesis using ne s' by blast
      qed
    qed
  qed
qed


lemma edges_wf_script: "edges_wf (snd (run_script n p))"
proof -
  obtain r s' where e: "exec n (Body p) init_state = (r, s')"
    by (cases "exec n (Body p) init_state")
  have "sym_rel init_state s'" using exec_sym_rel [OF e] by simp
  then show ?thesis using e init_state_wf(1) by (simp add: run_script_def sym_rel_def)
qed

text \<open>
  C6 (freshness, I2), as the code has it. Evaluating a derivation starts by calling its
  function, and when the evaluation is over (returned or raised) the derivation's
  dependencies are exactly the nodes whose \<^verbatim>\<open>get\<close> registered it since that call, whatever
  the dependencies were before: provided the evaluation was not itself interrupted by a
  nested evaluation or a disposal of the same derivation. The derivation is then an observer of no other node, so a write
  to a cell it read only in earlier evaluations does not reach it.
\<close>

theorem dependencies_fresh:
  assumes wf: "edges_wf s" and ev: "evaluable s d"
    and ex: "exec (Suc n) (evaluation s d) s = (r, s')"
    and u: "undisturbed d (tl (new_events s s'))"
  shows "new_events s s' = CallFn d # tl (new_events s s')
       \<and> set (dependencies s' d) = set (reads_of d (tl (new_events s s')))
       \<and> (\<forall>a. d \<in> set (observers s' a) \<longrightarrow> a \<in> set (reads_of d (tl (new_events s s'))))"
proof -
  have k: "kind s d \<noteq> None" using ev by (auto simp: evaluable_def)
  then have lt: "d < id_counter s" using wf by (simp add: edges_wf_def)
  have ok: "call_ok (evaluation s d) s" using k by (simp add: evaluation_def)
  obtain evs where ne: "new_events s s' = CallFn d # evs"
    and fr: "undisturbed d evs \<longrightarrow> d < id_counter s \<longrightarrow> set (dependencies s' d) = set (reads_of d evs)"
    using evaluation_body [OF ev ex] by blast
  have tl: "tl (new_events s s') = evs" using ne by simp
  have deps: "set (dependencies s' d) = set (reads_of d evs)" using fr u lt tl by simp
  have "sym_rel s s'" using exec_sym_rel [OF ex ok] .
  then have "edges_wf s'" using wf by (simp add: sym_rel_def)
  then have "\<forall>a. d \<in> set (observers s' a) \<longrightarrow> a \<in> set (dependencies s' d)"
    by (simp add: edges_wf_def)
  then show ?thesis using ne tl deps by simp
qed

text \<open>
  The reaction of \<open>ex_switch\<close> read \<open>flag\<close> and \<open>a\<close> when it was created. Evaluated again
  now that \<open>flag\<close> is 0, it reads \<open>flag\<close> and \<open>b\<close>: its dependencies are cells 1 and 3, and
  cell 2 no longer has it as an observer.
\<close>

theorem dependencies_fresh_witness:
  "edges_wf ex_switch \<and> evaluable ex_switch 4
   \<and> dependencies ex_switch 4 = [1, 2]
   \<and> undisturbed 4 (tl (new_events ex_switch (snd (exec (Suc 10) (evaluation ex_switch 4) ex_switch))))
   \<and> set (dependencies (snd (exec (Suc 10) (evaluation ex_switch 4) ex_switch)) 4) = {1, 3}
   \<and> 4 \<notin> set (observers (snd (exec (Suc 10) (evaluation ex_switch 4) ex_switch)) 2)"
proof -
  let ?s' = "snd (exec (Suc 10) (evaluation ex_switch 4) ex_switch)"
  have w: "edges_wf ex_switch" unfolding ex_switch_def by (rule edges_wf_script)
  have ev: "evaluable ex_switch 4" by code_simp
  have d0: "dependencies ex_switch 4 = [1, 2]" by code_simp
  have e: "exec (Suc 10) (evaluation ex_switch 4) ex_switch
         = (fst (exec (Suc 10) (evaluation ex_switch 4) ex_switch), ?s')" by simp
  have u: "undisturbed 4 (tl (new_events ex_switch ?s'))" by code_simp
  have rd: "reads_of 4 (tl (new_events ex_switch ?s')) = [1, 3]" by code_simp
  show ?thesis using dependencies_fresh [OF w ev e u] w ev d0 u rd by auto
qed

text \<open>
  The claim as stated fails. In \<open>ex_self_dispose\<close> the second evaluation of reaction 3 reads
  cell 1, disposes the reaction, and reads cell 2: it completes with cell 2 as its only
  dependency. In \<open>ex_reentrant\<close> the evaluation of reaction 4 reads cells 1 and 2 and writes
  cell 1, which runs the reaction again inside its own evaluation; it completes with
  dependencies 1 and 3, although it read cell 2.
\<close>

theorem dependencies_not_fresh_when_disturbed:
  "fst (run_script 30 ex_self_dispose) = Inr py_None
   \<and> trace (snd (run_script 30 ex_self_dispose))
       = [CallFn 3, Read 3 1, Read 3 2, CallFn 3, Read 3 1, DisposedReaction 3, Read 3 2]
   \<and> dependencies (snd (run_script 30 ex_self_dispose)) 3 = [2]
   \<and> fst (run_script 30 ex_reentrant) = Inr py_None
   \<and> trace (snd (run_script 30 ex_reentrant))
       = [CallFn 4, Read 4 1, Read 4 2, CallFn 4, Read 4 1, Read 4 3]
   \<and> dependencies (snd (run_script 30 ex_reentrant)) 4 = [1, 3]"
  by code_simp

section \<open>A raise during a flush\<close>

lemma exec_mono_le:
  "exec n c s = (r, s') \<Longrightarrow> r \<noteq> Inl OutOfFuel \<Longrightarrow> n \<le> m \<Longrightarrow> exec m c s = (r, s')"
  using exec_mono [of n c s r s' "m - n"] by simp

lemma flush_batch_abort:
  assumes "exec n1 (Flush_batch ds1) s0 = (Inr v, s1)"
    and "exec n2 (Run d) s1 = (Inl e, s2)" and "e \<noteq> OutOfFuel" and "n1 + n2 \<le> m"
  shows "exec m (Flush_batch (ds1 @ d # ds2)) s0 = (Inl e, s2)"
  using assms
proof (induction ds1 arbitrary: n1 s0 m)
  case Nil
  obtain k where n1: "n1 = Suc k" using Nil.prems(1) by (cases n1) auto
  then have s1: "s1 = s0" using Nil.prems(1) by simp
  obtain m' where m: "m = Suc m'" and le: "n2 \<le> m'" using Nil.prems(4) n1 by (cases m) auto
  have "exec m' (Run d) s0 = (Inl e, s2)"
    using exec_mono_le [OF Nil.prems(2) _ le] Nil.prems(3) s1 by simp
  then show ?case using m by simp
next
  case (Cons x xs)
  obtain k where n1: "n1 = Suc k" using Cons.prems(1) by (cases n1) auto
  obtain rx sx where ex: "exec k (Run x) s0 = (rx, sx)" by (cases "exec k (Run x) s0")
  have rx: "\<exists>u. rx = Inr u" and rest: "exec k (Flush_batch xs) sx = (Inr v, s1)"
    using Cons.prems(1) n1 ex by (cases rx; simp)+
  obtain m' where m: "m = Suc m'" and le: "k + n2 \<le> m'" using Cons.prems(4) n1 by (cases m) auto
  have "exec m' (Run x) s0 = (rx, sx)"
    using exec_mono_le [OF ex, of m'] rx le by auto
  moreover have "exec m' (Flush_batch (xs @ d # ds2)) sx = (Inl e, s2)"
    using Cons.IH [OF rest Cons.prems(2,3) le] .
  ultimately show ?case using m rx by auto
qed

text \<open>
  C2 (a raise during a flush), as the code has it. The pending set is cleared when the
  snapshot is taken. When the members of the snapshot before \<open>d\<close> have run and \<open>d\<close> raises,
  the flush stops there, with that error and in the state \<open>d\<close> left: whatever the members
  after \<open>d\<close> are, they are not run, and they are not put back into the pending set.
\<close>

theorem flush_abort_drops_snapshot:
  assumes "pending s = ds1 @ d # ds2"
    and "exec n1 (Flush_batch ds1) (pending_clear s) = (Inr v, s1)"
    and "exec n2 (Run d) s1 = (Inl UserError, s2)"
  shows "pending (pending_clear s) = []
       \<and> (\<forall>m \<ge> n1 + n2. exec (Suc m) Flush_pending s = (Inl UserError, s2))"
proof -
  have "exec (Suc m) Flush_pending s = (Inl UserError, s2)" if "n1 + n2 \<le> m" for m
  proof -
    have "exec m (Flush_batch (pending s)) (pending_clear s) = (Inl UserError, s2)"
      unfolding assms(1) using assms(2,3) _ that by (rule flush_batch_abort) simp
    moreover have "pending s \<noteq> []" using assms(1) by simp
    ultimately show ?thesis by simp
  qed
  then show ?thesis by (simp add: pending_clear_def)
qed


text \<open>
  In \<open>ex_raise_open\<close> reactions 2 and 3 are pending. At the end of the batch reaction 2
  raises; reaction 3 has not been run, and the pending set is empty.
\<close>

theorem flush_abort_drops_snapshot_witness:
  "pending (leave_batch ex_raise_open) = [] @ 2 # [3]
   \<and> exec 1 (Flush_batch []) (pending_clear (leave_batch ex_raise_open))
       = (Inr py_None, pending_clear (leave_batch ex_raise_open))
   \<and> fst (exec 5 (Run 2) (pending_clear (leave_batch ex_raise_open))) = Inl UserError
   \<and> exec (Suc (1 + 5)) Flush_pending (leave_batch ex_raise_open)
       = (Inl UserError, snd (exec 5 (Run 2) (pending_clear (leave_batch ex_raise_open))))
   \<and> get_pending_count (snd (exec (Suc (1 + 5)) Flush_pending (leave_batch ex_raise_open))) = 0
   \<and> calls_of 3 (new_events ex_raise_open
         (snd (exec (Suc (1 + 5)) Flush_pending (leave_batch ex_raise_open)))) = 0"
proof -
  let ?s = "leave_batch ex_raise_open"
  let ?s2 = "snd (exec 5 (Run 2) (pending_clear ?s))"
  have p: "pending ?s = [] @ 2 # [3]" by code_simp
  have b: "exec 1 (Flush_batch []) (pending_clear ?s) = (Inr py_None, pending_clear ?s)"
    by (simp add: One_nat_def)
  have rf: "fst (exec 5 (Run 2) (pending_clear ?s)) = Inl UserError" by code_simp
  then have r: "exec 5 (Run 2) (pending_clear ?s) = (Inl UserError, ?s2)"
    by (simp add: prod_eq_iff)
  have f: "exec (Suc (1 + 5)) Flush_pending ?s = (Inl UserError, ?s2)"
    using flush_abort_drops_snapshot [OF p b r] by blast
  have sn: "snd (exec (Suc (1 + 5)) Flush_pending ?s) = ?s2"
    by (simp only: f snd_conv)
  have c1: "get_pending_count (snd (exec (Suc (1 + 5)) Flush_pending ?s)) = 0"
    unfolding sn by code_simp
  have c2: "calls_of 3 (new_events ex_raise_open (snd (exec (Suc (1 + 5)) Flush_pending ?s))) = 0"
    unfolding sn by code_simp
  show ?thesis using p b rf f c1 c2 by blast
qed

text \<open>
  The claim as stated fails: after the flush of \<open>ex_raise_open\<close> was aborted by the raise of
  reaction 2, reaction 3, a member of the snapshot that was not run, is not pending, and
  the pending count is 0.
\<close>

theorem unrun_members_not_left_pending:
  "pending ex_raise_open = [2, 3] \<and> batch_depth ex_raise_open = 1
   \<and> fst (exec 20 End_batch_call ex_raise_open) = Inl UserError
   \<and> calls_of 3 (new_events ex_raise_open (snd (exec 20 End_batch_call ex_raise_open))) = 0
   \<and> 3 \<notin> set (pending (snd (exec 20 End_batch_call ex_raise_open)))
   \<and> get_pending_count (snd (exec 20 End_batch_call ex_raise_open)) = 0"
  by code_simp

section \<open>Triggers during a flush\<close>





section \<open>Batches\<close>

lemma fold_pending_add_fields [simp]:
  "batch_depth (fold pending_add ds s) = batch_depth s"
  "kind (fold pending_add ds s) = kind s"
  "observers (fold pending_add ds s) = observers s"
  "values (fold pending_add ds s) = values s"
  "trace (fold pending_add ds s) = trace s"
  "log (fold pending_add ds s) = log s"
  by (induction ds arbitrary: s; simp add: pending_add_def)+

lemma batch_write_fields [simp]:
  "batch_depth (batch_write w s) = batch_depth s"
  "kind (batch_write w s) = kind s"
  "observers (batch_write w s) = observers s"
  "trace (batch_write w s) = trace s"
  "log (batch_write w s) = log s"
  by (simp_all add: batch_write_def set_value_def)

lemma fold_batch_write_fields [simp]:
  "batch_depth (fold batch_write ws s) = batch_depth s"
  "kind (fold batch_write ws s) = kind s"
  "observers (fold batch_write ws s) = observers s"
  "trace (fold batch_write ws s) = trace s"
  "log (fold batch_write ws s) = log s"
  by (induction ws arbitrary: s; simp)+









end
